theory Spec2Isabelle
  imports Complex_Main "HOL-Library.Product_Lexorder" "HOL-Library.Multiset"
begin

section \<open>Data model\<close>

text \<open>
  Virtual time and durations are Python numbers: ints where the caller passes ints (as
  the test suite does), floats where it passes floats (as the signature of \<open>AnalogBuffer\<close>
  announces). Every int and every finite float is a real number, so \<open>time\<close> is the type of
  their values. What depends on the type of the numbers is the sum \<open>now + delay\<close> that
  simpy's \<open>Environment.schedule\<close> computes: it is exact on ints and rounded to the nearest
  double on floats. The engine below comes in both forms: \<open>run\<close> adds exactly, and
  \<open>run_r rd\<close> rounds every sum with \<open>rd\<close>.
\<close>

type_synonym time = real

text \<open>
  Python exceptions that can travel through the stage. \<open>NegativeDelay d\<close> is the
  \<open>ValueError('Negative delay d')\<close> that simpy's \<open>Timeout\<close> raises for a delay below zero,
  \<open>IndexError\<close> a list index out of range, \<open>Failure reason\<close> any other instance of
  \<open>Exception\<close> (the application-defined failure of a routing stage). The signals of the
  interpreter that derive from \<open>BaseException\<close> only (\<open>KeyboardInterrupt\<close>, \<open>SystemExit\<close>,
  \<open>GeneratorExit\<close>) are no failures of the program and are not modelled.
\<close>

datatype exn = NegativeDelay time | IndexError | Failure string

text \<open>How a simpy event ended: \<open>Event.ok\<close> with value \<open>None\<close>, or failed with an exception.\<close>

datatype outcome = Succeeded | Failed exn

text \<open>
  Modelled from the spec: class \<open>DownstreamEvent\<close> of module \<open>events\<close>, which is not among
  the sources. The Event Record carries the event identity and metadata
  (\<open>detection_event_info\<close>, built in the test suite with the keys \<open>event_number\<close>,
  \<open>scintillator\<close>, \<open>event_length\<close>) and the sample index (\<open>event_info\<close>, key
  \<open>sample_index\<close>); every record has all of these fields, so the two dictionaries are
  records here and a lookup of one of these keys cannot fail.
\<close>

record detection_info =
  event_number :: int
  scintillator :: int
  event_length :: time

record sample_info =
  sample_index :: int

record DownstreamEvent =
  detection_event_info :: detection_info
  event_info :: sample_info

text \<open>
  Modelled from the spec: class \<open>AMUX\<close>, the routing stage, which is not among the sources.
  Its contract is \<open>entry_point(source_index, event)\<close>, a suspending operation that may take
  virtual time and may fail with an application-defined reason. A routing stage is given
  by its plan: for the index and event of a request and the time of the request, the
  delays it suspends for, in order, and how it ends.
\<close>

record AMUX =
  plan :: "int \<Rightarrow> DownstreamEvent \<Rightarrow> time \<Rightarrow> time list \<times> outcome"

text \<open>Class \<open>AnalogBuffer\<close>; the field \<open>env\<close> is the environment the processes run in.\<close>

record AnalogBuffer =
  amux :: "AMUX option"
  buffer_index :: int
  buffer_location :: string
  sample_length :: time
  buffer_length :: int
  chain_delay :: time
  debug :: bool
  downstream_events_processed :: int

definition AnalogBuffer_init ::
  "int \<Rightarrow> string \<Rightarrow> time \<Rightarrow> int \<Rightarrow> time \<Rightarrow> bool \<Rightarrow> AnalogBuffer" where
  "AnalogBuffer_init index location sample_len buffer_len chain_del dbg =
     \<lparr>amux = None, buffer_index = index, buffer_location = location,
      sample_length = sample_len, buffer_length = buffer_len, chain_delay = chain_del,
      debug = dbg, downstream_events_processed = 0\<rparr>"

definition set_amux :: "AMUX \<Rightarrow> AnalogBuffer \<Rightarrow> AnalogBuffer" where
  "set_amux m self = self\<lparr>amux := Some m\<rparr>"

text \<open>
  The lines the stage prints. Each carries the values formatted into it: the current
  virtual time, the location and index of the stage, the index of the cell, the event
  number and sample index of the event, the downstream reference.
\<close>

datatype line =
    In_buffer time string int "AMUX option"
  | Unit_starting time string int int int int "AMUX option"
  | Unit_finished time string int int int int "AMUX option"
  | Call_to_remove time string int "AMUX option"
  | At_remove time string int
  | No_downstream_mux time
  | Out_of_tail int int
  | Caught_failed time exn

section \<open>Generators and the scheduling engine\<close>

text \<open>
  The body of a Python generator run as a simpy process, as a resumption. A yield hands
  the rest of the body to the engine as a function of the outcome of the event waited
  for: simpy sends the value of an event that succeeded into the generator and throws
  the exception of a failed one at the yield.
  \<^item> \<open>Yield_timeout d k\<close> is \<open>yield env.timeout(d)\<close>;
  \<^item> \<open>Yield_process g k\<close> is \<open>yield env.process(g)\<close>;
  \<^item> \<open>Start_process g p\<close> is the statement \<open>env.process(g)\<close>, followed by \<open>p\<close>;
  \<^item> \<open>Read f\<close> reads \<open>env.now\<close> and the fields of \<open>self\<close>;
  \<^item> \<open>Write f p\<close> assigns to fields of \<open>self\<close>;
  \<^item> \<open>Print l p\<close> prints a line;
  \<^item> \<open>Yield_entry_point m i e k\<close> is \<open>yield env.process(m.entry_point(i, e))\<close>.
\<close>

datatype proc =
    Return
  | Raise exn
  | Yield_timeout time "outcome \<Rightarrow> proc"
  | Yield_process proc "outcome \<Rightarrow> proc"
  | Start_process proc proc
  | Read "time \<Rightarrow> AnalogBuffer \<Rightarrow> proc"
  | Write "AnalogBuffer \<Rightarrow> AnalogBuffer" proc
  | Print line proc
  | Yield_entry_point AMUX int DownstreamEvent "outcome \<Rightarrow> proc"

text \<open>A yield outside any \<open>try\<close>: the exception thrown at it leaves the generator.\<close>

definition await :: "proc \<Rightarrow> outcome \<Rightarrow> proc" where
  "await p r = (case r of Succeeded \<Rightarrow> p | Failed e \<Rightarrow> Raise e)"

text \<open>
  \<open>try: body except Exception as e: handler\<close> as the last statement of a generator: an
  exception raised in the body, or thrown at one of its yields, runs the handler.
  Exceptions inside a process the body starts reach the body only through the outcome
  of that process.
\<close>

primrec try_except :: "proc \<Rightarrow> (exn \<Rightarrow> proc) \<Rightarrow> proc" where
  "try_except Return h = Return"
| "try_except (Raise e) h = h e"
| "try_except (Yield_timeout d k) h = Yield_timeout d (\<lambda>r. try_except (k r) h)"
| "try_except (Yield_process g k) h = Yield_process g (\<lambda>r. try_except (k r) h)"
| "try_except (Start_process g p) h = Start_process g (try_except p h)"
| "try_except (Read f) h = Read (\<lambda>t self. try_except (f t self) h)"
| "try_except (Write f p) h = Write f (try_except p h)"
| "try_except (Print l p) h = Print l (try_except p h)"
| "try_except (Yield_entry_point m i e k) h = Yield_entry_point m i e (\<lambda>r. try_except (k r) h)"

text \<open>The generator of a routing stage with the given plan.\<close>

fun entry_point_body :: "time list \<Rightarrow> outcome \<Rightarrow> proc" where
  "entry_point_body [] Succeeded = Return"
| "entry_point_body [] (Failed e) = Raise e"
| "entry_point_body (d # ds) out = Yield_timeout d (await (entry_point_body ds out))"

definition entry_point :: "AMUX \<Rightarrow> int \<Rightarrow> DownstreamEvent \<Rightarrow> time \<Rightarrow> proc" where
  "entry_point m i e t = entry_point_body (fst (plan m i e t)) (snd (plan m i e t))"

text \<open>
  A simpy process: its generator, suspended at a yield, and the callbacks of the process
  as an event, which are the processes waiting for it to end.
\<close>

datatype process = Suspended "outcome \<Rightarrow> proc" "process list"

text \<open>An event on the queue of the environment, with its key \<open>(time, priority, id)\<close>.\<close>

record event =
  ev_time :: time
  ev_priority :: nat
  ev_id :: nat
  ev_outcome :: outcome
  ev_callbacks :: "process list"

definition URGENT :: nat where "URGENT = 0"
definition NORMAL :: nat where "NORMAL = 1"

definition key :: "event \<Rightarrow> time \<times> nat \<times> nat" where
  "key e = (ev_time e, ev_priority e, ev_id e)"

text \<open>
  The environment: the clock, the queue (kept in the order in which the heap pops it), the
  counter of event ids, the stage the processes run on, what has been printed, and the
  requests made to routing stages, each with its time.
\<close>

record environment =
  now :: time
  queue :: "event list"
  eid_counter :: nat
  stage :: AnalogBuffer
  printed :: "line list"
  requests :: "(time \<times> int \<times> DownstreamEvent) list"

definition new_environment :: "AnalogBuffer \<Rightarrow> environment" where
  "new_environment b =
     \<lparr>now = 0, queue = [], eid_counter = 0, stage = b, printed = [], requests = []\<rparr>"

definition schedule ::
  "time \<Rightarrow> nat \<Rightarrow> outcome \<Rightarrow> process list \<Rightarrow> environment \<Rightarrow> environment" where
  "schedule delay prio v cbs env =
     env\<lparr>queue := insort_key key
            \<lparr>ev_time = now env + delay, ev_priority = prio, ev_id = eid_counter env,
             ev_outcome = v, ev_callbacks = cbs\<rparr> (queue env),
         eid_counter := eid_counter env + 1\<rparr>"

text \<open>
  Running a generator of a process with callbacks \<open>cbs\<close> up to its next yield or its end
  (\<open>Process._resume\<close>). A process that ends is scheduled as an event of its own.
\<close>

primrec exec :: "proc \<Rightarrow> process list \<Rightarrow> environment \<Rightarrow> environment" where
  "exec Return cbs env = schedule 0 NORMAL Succeeded cbs env"
| "exec (Raise e) cbs env = schedule 0 NORMAL (Failed e) cbs env"
| "exec (Yield_timeout d k) cbs env =
     (if d < 0 then exec (k (Failed (NegativeDelay d))) cbs env
      else schedule d NORMAL Succeeded [Suspended k cbs] env)"
| "exec (Yield_process g k) cbs env =
     schedule 0 URGENT Succeeded [Suspended (\<lambda>r. g) [Suspended k cbs]] env"
| "exec (Start_process g p) cbs env =
     exec p cbs (schedule 0 URGENT Succeeded [Suspended (\<lambda>r. g) []] env)"
| "exec (Read f) cbs env = exec (f (now env) (stage env)) cbs env"
| "exec (Write f p) cbs env = exec p cbs (env\<lparr>stage := f (stage env)\<rparr>)"
| "exec (Print l p) cbs env = exec p cbs (env\<lparr>printed := printed env @ [l]\<rparr>)"
| "exec (Yield_entry_point m i e k) cbs env =
     schedule 0 URGENT Succeeded
       [Suspended (\<lambda>r. entry_point m i e (now env)) [Suspended k cbs]]
       (env\<lparr>requests := requests env @ [(now env, i, e)]\<rparr>)"

fun resume :: "outcome \<Rightarrow> process \<Rightarrow> environment \<Rightarrow> environment" where
  "resume v (Suspended k cbs) env = exec (k v) cbs env"

text \<open>
  One step of the environment on the event popped from the queue: its callbacks run in
  order; a failed event that no process was waiting for crashes the run.
\<close>

definition process_event :: "event \<Rightarrow> environment \<Rightarrow> exn + environment" where
  "process_event e env =
     (case ev_outcome e of
        Succeeded \<Rightarrow> Inr (fold (resume Succeeded) (ev_callbacks e) env)
      | Failed x \<Rightarrow>
          if ev_callbacks e = [] then Inl x
          else Inr (fold (resume (Failed x)) (ev_callbacks e) env))"

text \<open>\<open>env.run()\<close>: steps until the queue is empty, or until a step raises.\<close>

partial_function (option) run :: "environment \<Rightarrow> (exn + environment) option" where
  "run env =
     (case queue env of
        [] \<Rightarrow> Some (Inr env)
      | e # q \<Rightarrow>
          (case process_event e (env\<lparr>now := ev_time e, queue := q\<rparr>) of
             Inl x \<Rightarrow> Some (Inl x)
           | Inr env' \<Rightarrow> run env'))"

declare run.simps [code]

text \<open>\<open>env.process(g)\<close> called from outside any process.\<close>

definition start :: "proc \<Rightarrow> environment \<Rightarrow> environment" where
  "start g env = schedule 0 URGENT Succeeded [Suspended (\<lambda>r. g) []] env"

subsection \<open>The engine with rounded sums\<close>

text \<open>
  \<open>Environment.schedule\<close> pushes an event with the time \<open>self._now + delay\<close>, a sum in the
  arithmetic of the numbers passed. \<open>advance rd t d\<close> is that sum, where \<open>rd\<close> rounds the
  exact result to a number of the type; adding a zero delay leaves the clock as it is in
  every number type of Python. With \<open>rd = (\<lambda>x. x)\<close> the engine below is the exact engine
  above (Python ints, or floats whose sums are representable); with \<open>rd = round_double\<close>
  it is the engine on floats.
\<close>

definition advance :: "(time \<Rightarrow> time) \<Rightarrow> time \<Rightarrow> time \<Rightarrow> time" where
  "advance rd t d = (if d = 0 then t else rd (t + d))"











section \<open>The buffer stage\<close>

definition py_range :: "int \<Rightarrow> int list" where
  "py_range n = map int [0..<nat n]"

definition sample_and_hold_unit :: "DownstreamEvent \<Rightarrow> int \<Rightarrow> proc" where
  "sample_and_hold_unit event unit_index =
     Read (\<lambda>t self.
       (if debug self
        then Print (Unit_starting t (buffer_location self) (buffer_index self) unit_index
                      (event_number (detection_event_info event))
                      (sample_index (event_info event)) (amux self))
        else (\<lambda>p. p))
       (Yield_timeout (sample_length self) (await
         (Read (\<lambda>t self.
            (if debug self
             then Print (Unit_finished t (buffer_location self) (buffer_index self) unit_index
                           (event_number (detection_event_info event))
                           (sample_index (event_info event)) (amux self))
             else (\<lambda>p. p))
            Return)))))"

definition remove_from_buffer :: "DownstreamEvent \<Rightarrow> AMUX option \<Rightarrow> proc" where
  "remove_from_buffer event mux =
     Read (\<lambda>t self.
       (if debug self
        then Print (At_remove t (buffer_location self) (buffer_index self))
        else (\<lambda>p. p))
       (case mux of
          None \<Rightarrow>
            Read (\<lambda>t self.
              (if debug self
               then (\<lambda>p. Print (No_downstream_mux t)
                      (Print (Out_of_tail (event_number (detection_event_info event))
                                (sample_index (event_info event))) p))
               else (\<lambda>p. p))
              (Write (\<lambda>self. self\<lparr>downstream_events_processed :=
                                   downstream_events_processed self + 1\<rparr>)
                 Return))
        | Some m \<Rightarrow>
            Read (\<lambda>t self.
              Yield_entry_point m (buffer_index self) event (await Return))))"

fun chain :: "DownstreamEvent \<Rightarrow> int list \<Rightarrow> proc \<Rightarrow> proc" where
  "chain event [] rest = rest"
| "chain event (i # indices) rest =
     Yield_process (sample_and_hold_unit event i) (await
       (Read (\<lambda>t self.
          Yield_timeout (chain_delay self) (await (chain event indices rest)))))"

definition buffer_in :: "DownstreamEvent \<Rightarrow> proc" where
  "buffer_in event =
     Read (\<lambda>t self.
       (if debug self
        then Print (In_buffer t (buffer_location self) (buffer_index self) (amux self))
        else (\<lambda>p. p))
       (Read (\<lambda>t self.
          chain event (py_range (buffer_length self))
            (Read (\<lambda>t self.
               (if debug self
                then Print (Call_to_remove t (buffer_location self) (buffer_index self)
                              (amux self))
                else (\<lambda>p. p))
               (Read (\<lambda>t self.
                  try_except
                    (Yield_process (remove_from_buffer event (amux self))
                       (\<lambda>process_event.
                          await
                            (case process_event of
                               Succeeded \<Rightarrow> Return
                             | Failed x \<Rightarrow> Raise x)
                            process_event))
                    (\<lambda>e. Read (\<lambda>t self. Print (Caught_failed t e) Return)))))))))"

section \<open>The test suite\<close>

fun multiple_event_helper_loop :: "DownstreamEvent list \<Rightarrow> nat list \<Rightarrow> proc" where
  "multiple_event_helper_loop test_events [] = Return"
| "multiple_event_helper_loop test_events (i # indices) =
     (if i < length test_events
      then Start_process (buffer_in (test_events ! i))
             (Yield_timeout 1 (await (multiple_event_helper_loop test_events indices)))
      else Raise IndexError)"

definition multiple_event_helper :: "DownstreamEvent list \<Rightarrow> nat \<Rightarrow> proc" where
  "multiple_event_helper test_events num_events =
     multiple_event_helper_loop test_events [0..<num_events]"

definition test_buffer :: AnalogBuffer where
  "test_buffer = AnalogBuffer_init 0 ''ring'' 1 5 0 True"

definition test_events :: "DownstreamEvent list" where
  "test_events =
     map (\<lambda>i. \<lparr>detection_event_info = \<lparr>event_number = 1, scintillator = 1, event_length = 1\<rparr>,
               event_info = \<lparr>sample_index = int i\<rparr>\<rparr>) [0..<10]"


definition test_multiple_events :: "(exn + environment) option" where
  "test_multiple_events =
     run (start (multiple_event_helper test_events 5) (new_environment test_buffer))"

text \<open>
  A driver in the pattern of \<open>multiple_event_helper\<close>, for any events and any pause after
  each start: it starts \<open>buffer_in\<close> on each event in turn and suspends for the pause that
  goes with it. The helper of the test suite is the driver with the pause 1 throughout.
\<close>

fun launcher :: "(DownstreamEvent \<times> time) list \<Rightarrow> proc" where
  "launcher [] = Return"
| "launcher ((event, pause) # rest) =
     Start_process (buffer_in event) (Yield_timeout pause (await (launcher rest)))"

section \<open>Control points\<close>

text \<open>
  Every event that reaches the queue while the stage runs has one of thirteen shapes,
  named by the point at which the process it resumes is suspended. \<open>ctl\<close> names
  them, \<open>entry\<close> gives the event of a shape, \<open>succs\<close> the events that processing it
  schedules (each with its delay), \<open>emits\<close>, \<open>bump\<close> and \<open>asks\<close> what it prints, adds
  to the counter and requests from the routing stage. The functions after
  \<open>gaps_ok\<close> say in closed form what is still to come from a shape processed at time
  \<open>t\<close>: when the last event it leads to is processed (\<open>fin\<close>), the lines printed
  (\<open>flines\<close>), the number of steps of the engine (\<open>steps\<close>), the increments of the
  counter (\<open>drops\<close>) and the requests (\<open>freqs\<close>).
\<close>

text \<open>
  \<open>handoff\<close> is the part of \<open>buffer_in\<close> after the loop over the cells. The four
  functions after it are the generators of the stage as they stand while suspended:
  \<open>buffer_in\<close> waiting for the chain delay (\<open>k_chain\<close>), for a cell (\<open>k_unit\<close>) and for
  \<open>remove_from_buffer\<close> (\<open>k_rb\<close>), and \<open>sample_and_hold_unit\<close> waiting for its timeout
  (\<open>k_sh\<close>).
\<close>

definition handoff :: "DownstreamEvent \<Rightarrow> proc" where
  "handoff event =
     Read (\<lambda>t self.
       (if debug self
        then Print (Call_to_remove t (buffer_location self) (buffer_index self) (amux self))
        else (\<lambda>p. p))
       (Read (\<lambda>t self.
          try_except
            (Yield_process (remove_from_buffer event (amux self))
               (\<lambda>process_event.
                  await
                    (case process_event of
                       Succeeded \<Rightarrow> Return
                     | Failed x \<Rightarrow> Raise x)
                    process_event))
            (\<lambda>e. Read (\<lambda>t self. Print (Caught_failed t e) Return)))))"

definition k_chain :: "DownstreamEvent \<Rightarrow> int list \<Rightarrow> outcome \<Rightarrow> proc" where
  "k_chain event indices = await (chain event indices (handoff event))"

definition k_unit :: "DownstreamEvent \<Rightarrow> int list \<Rightarrow> outcome \<Rightarrow> proc" where
  "k_unit event indices =
     await (Read (\<lambda>t self. Yield_timeout (chain_delay self) (k_chain event indices)))"

definition k_sh :: "DownstreamEvent \<Rightarrow> int \<Rightarrow> outcome \<Rightarrow> proc" where
  "k_sh event unit_index =
     await (Read (\<lambda>t self.
            (if debug self
             then Print (Unit_finished t (buffer_location self) (buffer_index self) unit_index
                           (event_number (detection_event_info event))
                           (sample_index (event_info event)) (amux self))
             else (\<lambda>p. p))
            Return))"

definition k_rb :: "outcome \<Rightarrow> proc" where
  "k_rb = (\<lambda>process_event.
             try_except
               (await (case process_event of Succeeded \<Rightarrow> Return | Failed x \<Rightarrow> Raise x)
                  process_event)
               (\<lambda>e. Read (\<lambda>t self. Print (Caught_failed t e) Return)))"

text \<open>
  The shapes: the start of \<open>buffer_in\<close> (\<open>Start_BI\<close>); for the cell \<open>i\<close>, with the cells
  \<open>is\<close> still to come, the start of \<open>sample_and_hold_unit\<close> (\<open>Start_SH\<close>), its timeout
  (\<open>Wake_SH\<close>), its end (\<open>Done_SH\<close>) and the timeout of the chain delay (\<open>Wake_chain\<close>);
  the start of \<open>remove_from_buffer\<close> (\<open>Start_RB\<close>); the start of the entry point of the
  routing stage (\<open>Start_MX\<close>), its timeouts (\<open>Wake_MX\<close>) and its end (\<open>Done_MX\<close>); the
  end of \<open>remove_from_buffer\<close> (\<open>Done_RB\<close>); the end of \<open>buffer_in\<close> or of the driver
  (\<open>Finished\<close>); the start of the driver (\<open>Start_DR\<close>) and its timeouts (\<open>Wake_DR\<close>).
\<close>

datatype ctl =
    Start_BI DownstreamEvent
  | Start_SH DownstreamEvent int "int list"
  | Wake_SH DownstreamEvent int "int list"
  | Done_SH DownstreamEvent "int list"
  | Wake_chain DownstreamEvent "int list"
  | Start_RB DownstreamEvent "AMUX option"
  | Start_MX "time list" outcome
  | Wake_MX "time list" outcome
  | Done_MX outcome
  | Done_RB outcome
  | Finished
  | Start_DR "(DownstreamEvent \<times> time) list"
  | Wake_DR "(DownstreamEvent \<times> time) list"

fun prio :: "ctl \<Rightarrow> nat" where
  "prio (Start_BI e) = URGENT"
| "prio (Start_SH e i is) = URGENT"
| "prio (Start_RB e m) = URGENT"
| "prio (Start_MX ds out) = URGENT"
| "prio (Start_DR xs) = URGENT"
| "prio c = NORMAL"

fun outc :: "ctl \<Rightarrow> outcome" where
  "outc (Done_MX v) = v"
| "outc (Done_RB v) = v"
| "outc c = Succeeded"

fun cbs :: "ctl \<Rightarrow> process list" where
  "cbs (Start_BI e) = [Suspended (\<lambda>r. buffer_in e) []]"
| "cbs (Start_SH e i is) =
     [Suspended (\<lambda>r. sample_and_hold_unit e i) [Suspended (k_unit e is) []]]"
| "cbs (Wake_SH e i is) = [Suspended (k_sh e i) [Suspended (k_unit e is) []]]"
| "cbs (Done_SH e is) = [Suspended (k_unit e is) []]"
| "cbs (Wake_chain e is) = [Suspended (k_chain e is) []]"
| "cbs (Start_RB e m) = [Suspended (\<lambda>r. remove_from_buffer e m) [Suspended k_rb []]]"
| "cbs (Start_MX ds out) =
     [Suspended (\<lambda>r. entry_point_body ds out) [Suspended (await Return) [Suspended k_rb []]]]"
| "cbs (Wake_MX ds out) =
     [Suspended (await (entry_point_body ds out))
        [Suspended (await Return) [Suspended k_rb []]]]"
| "cbs (Done_MX v) = [Suspended (await Return) [Suspended k_rb []]]"
| "cbs (Done_RB v) = [Suspended k_rb []]"
| "cbs Finished = []"
| "cbs (Start_DR xs) = [Suspended (\<lambda>r. launcher xs) []]"
| "cbs (Wake_DR xs) = [Suspended (await (launcher xs)) []]"

definition entry :: "time \<Rightarrow> nat \<Rightarrow> ctl \<Rightarrow> event" where
  "entry t i c =
     \<lparr>ev_time = t, ev_priority = prio c, ev_id = i, ev_outcome = outc c, ev_callbacks = cbs c\<rparr>"

fun next_cell :: "AnalogBuffer \<Rightarrow> DownstreamEvent \<Rightarrow> int list \<Rightarrow> (time \<times> ctl) list" where
  "next_cell b e [] = [(0, Start_RB e (amux b))]"
| "next_cell b e (i # is) = [(0, Start_SH e i is)]"

fun next_mx :: "time list \<Rightarrow> outcome \<Rightarrow> (time \<times> ctl) list" where
  "next_mx [] out = [(0, Done_MX out)]"
| "next_mx (d # ds) out =
     (if d < 0 then [(0, Done_MX (Failed (NegativeDelay d)))] else [(d, Wake_MX ds out)])"

fun next_dr :: "(DownstreamEvent \<times> time) list \<Rightarrow> (time \<times> ctl) list" where
  "next_dr [] = [(0, Finished)]"
| "next_dr ((e, g) # xs) = [(0, Start_BI e), (g, Wake_DR xs)]"

fun succs :: "AnalogBuffer \<Rightarrow> time \<Rightarrow> ctl \<Rightarrow> (time \<times> ctl) list" where
  "succs b t (Start_BI e) = next_cell b e (py_range (buffer_length b))"
| "succs b t (Start_SH e i is) = [(sample_length b, Wake_SH e i is)]"
| "succs b t (Wake_SH e i is) = [(0, Done_SH e is)]"
| "succs b t (Done_SH e is) = [(chain_delay b, Wake_chain e is)]"
| "succs b t (Wake_chain e is) = next_cell b e is"
| "succs b t (Start_RB e None) = [(0, Done_RB Succeeded)]"
| "succs b t (Start_RB e (Some m)) =
     [(0, Start_MX (fst (plan m (buffer_index b) e t)) (snd (plan m (buffer_index b) e t)))]"
| "succs b t (Start_MX ds out) = next_mx ds out"
| "succs b t (Wake_MX ds out) = next_mx ds out"
| "succs b t (Done_MX v) = [(0, Done_RB v)]"
| "succs b t (Done_RB v) = [(0, Finished)]"
| "succs b t Finished = []"
| "succs b t (Start_DR xs) = next_dr xs"
| "succs b t (Wake_DR xs) = next_dr xs"

definition dbg :: "AnalogBuffer \<Rightarrow> line list \<Rightarrow> line list" where
  "dbg b ls = (if debug b then ls else [])"

fun emits :: "AnalogBuffer \<Rightarrow> time \<Rightarrow> ctl \<Rightarrow> line list" where
  "emits b t (Start_BI e) =
     dbg b [In_buffer t (buffer_location b) (buffer_index b) (amux b)] @
     (if py_range (buffer_length b) = []
      then dbg b [Call_to_remove t (buffer_location b) (buffer_index b) (amux b)] else [])"
| "emits b t (Start_SH e i is) =
     dbg b [Unit_starting t (buffer_location b) (buffer_index b) i
              (event_number (detection_event_info e)) (sample_index (event_info e)) (amux b)]"
| "emits b t (Wake_SH e i is) =
     dbg b [Unit_finished t (buffer_location b) (buffer_index b) i
              (event_number (detection_event_info e)) (sample_index (event_info e)) (amux b)]"
| "emits b t (Wake_chain e is) =
     (if is = []
      then dbg b [Call_to_remove t (buffer_location b) (buffer_index b) (amux b)] else [])"
| "emits b t (Start_RB e m) =
     dbg b [At_remove t (buffer_location b) (buffer_index b)] @
     (if m = None
      then dbg b [No_downstream_mux t,
                  Out_of_tail (event_number (detection_event_info e))
                    (sample_index (event_info e))]
      else [])"
| "emits b t (Done_RB v) = (case v of Succeeded \<Rightarrow> [] | Failed x \<Rightarrow> [Caught_failed t x])"
| "emits b t c = []"

fun bump :: "ctl \<Rightarrow> int" where
  "bump (Start_RB e None) = 1"
| "bump c = 0"

fun asks :: "AnalogBuffer \<Rightarrow> time \<Rightarrow> ctl \<Rightarrow> (time \<times> int \<times> DownstreamEvent) list" where
  "asks b t (Start_RB e (Some m)) = [(t, buffer_index b, e)]"
| "asks b t c = []"

definition perform :: "ctl \<Rightarrow> environment \<Rightarrow> environment" where
  "perform c env =
     fold (\<lambda>(d, c'). schedule d (prio c') (outc c') (cbs c')) (succs (stage env) (now env) c)
       (env\<lparr>printed := printed env @ emits (stage env) (now env) c,
            stage := (stage env)\<lparr>downstream_events_processed :=
                        downstream_events_processed (stage env) + bump c\<rparr>,
            requests := requests env @ asks (stage env) (now env) c\<rparr>)"

definition valid :: "AnalogBuffer \<Rightarrow> bool" where
  "valid b \<longleftrightarrow> 0 \<le> sample_length b \<and> 0 \<le> chain_delay b"

fun gaps_ok :: "ctl \<Rightarrow> bool" where
  "gaps_ok (Start_DR xs) = (\<forall>x \<in> set xs. 0 \<le> snd x)"
| "gaps_ok (Wake_DR xs) = (\<forall>x \<in> set xs. 0 \<le> snd x)"
| "gaps_ok c = True"

text \<open>
  What a plan of the routing stage amounts to, for an entry point started at time \<open>t\<close>:
  the time at which it ends (\<open>mx_fin\<close>), how it ends (\<open>mx_out\<close>: a negative delay makes
  it fail with the exception of the timeout) and the number of steps of the engine it
  takes (\<open>mx_steps\<close>). \<open>caught_line\<close> is the line that \<open>buffer_in\<close> prints for an outcome
  of its handoff.
\<close>

fun mx_fin :: "time \<Rightarrow> time list \<Rightarrow> time" where
  "mx_fin t [] = t"
| "mx_fin t (d # ds) = (if d < 0 then t else mx_fin (t + d) ds)"

fun mx_out :: "time list \<Rightarrow> outcome \<Rightarrow> outcome" where
  "mx_out [] out = out"
| "mx_out (d # ds) out = (if d < 0 then Failed (NegativeDelay d) else mx_out ds out)"

fun mx_steps :: "time list \<Rightarrow> nat" where
  "mx_steps [] = 1"
| "mx_steps (d # ds) = (if d < 0 then 1 else 1 + mx_steps ds)"

fun caught_line :: "time \<Rightarrow> outcome \<Rightarrow> line list" where
  "caught_line t Succeeded = []"
| "caught_line t (Failed x) = [Caught_failed t x]"

fun rb_fin :: "AnalogBuffer \<Rightarrow> time \<Rightarrow> DownstreamEvent \<Rightarrow> AMUX option \<Rightarrow> time" where
  "rb_fin b t e None = t"
| "rb_fin b t e (Some m) = mx_fin t (fst (plan m (buffer_index b) e t))"

fun rb_lines :: "AnalogBuffer \<Rightarrow> time \<Rightarrow> DownstreamEvent \<Rightarrow> AMUX option \<Rightarrow> line list" where
  "rb_lines b t e None =
     dbg b [At_remove t (buffer_location b) (buffer_index b)] @
     dbg b [No_downstream_mux t,
            Out_of_tail (event_number (detection_event_info e)) (sample_index (event_info e))]"
| "rb_lines b t e (Some m) =
     dbg b [At_remove t (buffer_location b) (buffer_index b)] @
     caught_line (mx_fin t (fst (plan m (buffer_index b) e t)))
       (mx_out (fst (plan m (buffer_index b) e t)) (snd (plan m (buffer_index b) e t)))"

fun rb_steps :: "AnalogBuffer \<Rightarrow> time \<Rightarrow> DownstreamEvent \<Rightarrow> AMUX option \<Rightarrow> nat" where
  "rb_steps b t e None = 3"
| "rb_steps b t e (Some m) = mx_steps (fst (plan m (buffer_index b) e t)) + 4"

fun rb_drops :: "AMUX option \<Rightarrow> int" where
  "rb_drops None = 1"
| "rb_drops (Some m) = 0"

fun rb_reqs ::
  "AnalogBuffer \<Rightarrow> time \<Rightarrow> DownstreamEvent \<Rightarrow> AMUX option \<Rightarrow> (time \<times> int \<times> DownstreamEvent) list" where
  "rb_reqs b t e None = []"
| "rb_reqs b t e (Some m) = [(t, buffer_index b, e)]"

fun cells_fin :: "AnalogBuffer \<Rightarrow> time \<Rightarrow> DownstreamEvent \<Rightarrow> int list \<Rightarrow> time" where
  "cells_fin b t e [] = rb_fin b t e (amux b)"
| "cells_fin b t e (i # is) = cells_fin b (t + sample_length b + chain_delay b) e is"

fun cells_lines :: "AnalogBuffer \<Rightarrow> time \<Rightarrow> DownstreamEvent \<Rightarrow> int list \<Rightarrow> line list" where
  "cells_lines b t e [] =
     dbg b [Call_to_remove t (buffer_location b) (buffer_index b) (amux b)] @
     rb_lines b t e (amux b)"
| "cells_lines b t e (i # is) =
     dbg b [Unit_starting t (buffer_location b) (buffer_index b) i
              (event_number (detection_event_info e)) (sample_index (event_info e)) (amux b)] @
     dbg b [Unit_finished (t + sample_length b) (buffer_location b) (buffer_index b) i
              (event_number (detection_event_info e)) (sample_index (event_info e)) (amux b)] @
     cells_lines b (t + sample_length b + chain_delay b) e is"

fun cells_steps :: "AnalogBuffer \<Rightarrow> time \<Rightarrow> DownstreamEvent \<Rightarrow> int list \<Rightarrow> nat" where
  "cells_steps b t e [] = rb_steps b t e (amux b)"
| "cells_steps b t e (i # is) = 4 + cells_steps b (t + sample_length b + chain_delay b) e is"

fun cells_reqs ::
  "AnalogBuffer \<Rightarrow> time \<Rightarrow> DownstreamEvent \<Rightarrow> int list \<Rightarrow> (time \<times> int \<times> DownstreamEvent) list" where
  "cells_reqs b t e [] = rb_reqs b t e (amux b)"
| "cells_reqs b t e (i # is) = cells_reqs b (t + sample_length b + chain_delay b) e is"

fun dr_fin :: "AnalogBuffer \<Rightarrow> time \<Rightarrow> (DownstreamEvent \<times> time) list \<Rightarrow> time" where
  "dr_fin b t [] = t"
| "dr_fin b t ((e, g) # xs) =
     max (cells_fin b t e (py_range (buffer_length b))) (dr_fin b (t + g) xs)"

fun dr_lines :: "AnalogBuffer \<Rightarrow> time \<Rightarrow> (DownstreamEvent \<times> time) list \<Rightarrow> line list" where
  "dr_lines b t [] = []"
| "dr_lines b t ((e, g) # xs) =
     dbg b [In_buffer t (buffer_location b) (buffer_index b) (amux b)] @
     cells_lines b t e (py_range (buffer_length b)) @ dr_lines b (t + g) xs"

fun dr_steps :: "AnalogBuffer \<Rightarrow> time \<Rightarrow> (DownstreamEvent \<times> time) list \<Rightarrow> nat" where
  "dr_steps b t [] = 2"
| "dr_steps b t ((e, g) # xs) =
     2 + cells_steps b t e (py_range (buffer_length b)) + dr_steps b (t + g) xs"

fun dr_reqs ::
  "AnalogBuffer \<Rightarrow> time \<Rightarrow> (DownstreamEvent \<times> time) list \<Rightarrow> (time \<times> int \<times> DownstreamEvent) list" where
  "dr_reqs b t [] = []"
| "dr_reqs b t ((e, g) # xs) =
     cells_reqs b t e (py_range (buffer_length b)) @ dr_reqs b (t + g) xs"

fun fin :: "AnalogBuffer \<Rightarrow> time \<Rightarrow> ctl \<Rightarrow> time" where
  "fin b t (Start_BI e) = cells_fin b t e (py_range (buffer_length b))"
| "fin b t (Start_SH e i is) = cells_fin b t e (i # is)"
| "fin b t (Wake_SH e i is) = cells_fin b (t + chain_delay b) e is"
| "fin b t (Done_SH e is) = cells_fin b (t + chain_delay b) e is"
| "fin b t (Wake_chain e is) = cells_fin b t e is"
| "fin b t (Start_RB e m) = rb_fin b t e m"
| "fin b t (Start_MX ds out) = mx_fin t ds"
| "fin b t (Wake_MX ds out) = mx_fin t ds"
| "fin b t (Done_MX v) = t"
| "fin b t (Done_RB v) = t"
| "fin b t Finished = t"
| "fin b t (Start_DR xs) = dr_fin b t xs"
| "fin b t (Wake_DR xs) = dr_fin b t xs"

fun flines :: "AnalogBuffer \<Rightarrow> time \<Rightarrow> ctl \<Rightarrow> line list" where
  "flines b t (Start_BI e) =
     dbg b [In_buffer t (buffer_location b) (buffer_index b) (amux b)] @
     cells_lines b t e (py_range (buffer_length b))"
| "flines b t (Start_SH e i is) = cells_lines b t e (i # is)"
| "flines b t (Wake_SH e i is) =
     dbg b [Unit_finished t (buffer_location b) (buffer_index b) i
              (event_number (detection_event_info e)) (sample_index (event_info e)) (amux b)] @
     cells_lines b (t + chain_delay b) e is"
| "flines b t (Done_SH e is) = cells_lines b (t + chain_delay b) e is"
| "flines b t (Wake_chain e is) = cells_lines b t e is"
| "flines b t (Start_RB e m) = rb_lines b t e m"
| "flines b t (Start_MX ds out) = caught_line (mx_fin t ds) (mx_out ds out)"
| "flines b t (Wake_MX ds out) = caught_line (mx_fin t ds) (mx_out ds out)"
| "flines b t (Done_MX v) = caught_line t v"
| "flines b t (Done_RB v) = caught_line t v"
| "flines b t Finished = []"
| "flines b t (Start_DR xs) = dr_lines b t xs"
| "flines b t (Wake_DR xs) = dr_lines b t xs"

fun steps :: "AnalogBuffer \<Rightarrow> time \<Rightarrow> ctl \<Rightarrow> nat" where
  "steps b t (Start_BI e) = 1 + cells_steps b t e (py_range (buffer_length b))"
| "steps b t (Start_SH e i is) = cells_steps b t e (i # is)"
| "steps b t (Wake_SH e i is) = 3 + cells_steps b (t + chain_delay b) e is"
| "steps b t (Done_SH e is) = 2 + cells_steps b (t + chain_delay b) e is"
| "steps b t (Wake_chain e is) = 1 + cells_steps b t e is"
| "steps b t (Start_RB e m) = rb_steps b t e m"
| "steps b t (Start_MX ds out) = mx_steps ds + 3"
| "steps b t (Wake_MX ds out) = mx_steps ds + 3"
| "steps b t (Done_MX v) = 3"
| "steps b t (Done_RB v) = 2"
| "steps b t Finished = 1"
| "steps b t (Start_DR xs) = dr_steps b t xs"
| "steps b t (Wake_DR xs) = dr_steps b t xs"

fun drops :: "AnalogBuffer \<Rightarrow> ctl \<Rightarrow> int" where
  "drops b (Start_BI e) = rb_drops (amux b)"
| "drops b (Start_SH e i is) = rb_drops (amux b)"
| "drops b (Wake_SH e i is) = rb_drops (amux b)"
| "drops b (Done_SH e is) = rb_drops (amux b)"
| "drops b (Wake_chain e is) = rb_drops (amux b)"
| "drops b (Start_RB e m) = rb_drops m"
| "drops b (Start_DR xs) = int (length xs) * rb_drops (amux b)"
| "drops b (Wake_DR xs) = int (length xs) * rb_drops (amux b)"
| "drops b c = 0"

fun freqs :: "AnalogBuffer \<Rightarrow> time \<Rightarrow> ctl \<Rightarrow> (time \<times> int \<times> DownstreamEvent) list" where
  "freqs b t (Start_BI e) = cells_reqs b t e (py_range (buffer_length b))"
| "freqs b t (Start_SH e i is) = cells_reqs b t e (i # is)"
| "freqs b t (Wake_SH e i is) = cells_reqs b (t + chain_delay b) e is"
| "freqs b t (Done_SH e is) = cells_reqs b (t + chain_delay b) e is"
| "freqs b t (Wake_chain e is) = cells_reqs b t e is"
| "freqs b t (Start_RB e m) = rb_reqs b t e m"
| "freqs b t (Start_DR xs) = dr_reqs b t xs"
| "freqs b t (Wake_DR xs) = dr_reqs b t xs"
| "freqs b t c = []"

text \<open>
  The queue as a list of shapes, each with the time and the id of its event, and what is
  still to come from all of them together.
\<close>

type_synonym pending = "time \<times> nat \<times> ctl"

definition akey :: "pending \<Rightarrow> time \<times> nat \<times> nat" where
  "akey x = (fst x, prio (snd (snd x)), fst (snd x))"

definition aentry :: "pending \<Rightarrow> event" where
  "aentry x = entry (fst x) (fst (snd x)) (snd (snd x))"

definition tc :: "pending \<Rightarrow> time \<times> ctl" where
  "tc x = (fst x, snd (snd x))"

definition later :: "time \<Rightarrow> time \<times> ctl \<Rightarrow> time \<times> ctl" where
  "later t z = (t + fst z, snd z)"

definition sched :: "time \<times> ctl \<Rightarrow> environment \<Rightarrow> environment" where
  "sched z = schedule (fst z) (prio (snd z)) (outc (snd z)) (cbs (snd z))"

definition Steps :: "AnalogBuffer \<Rightarrow> (time \<times> ctl) multiset \<Rightarrow> nat" where
  "Steps b M = (\<Sum>z\<in>#M. steps b (fst z) (snd z))"

definition Drops :: "AnalogBuffer \<Rightarrow> (time \<times> ctl) multiset \<Rightarrow> int" where
  "Drops b M = (\<Sum>z\<in>#M. drops b (snd z))"

definition Lines :: "AnalogBuffer \<Rightarrow> (time \<times> ctl) multiset \<Rightarrow> line multiset" where
  "Lines b M = (\<Sum>z\<in>#M. mset (flines b (fst z) (snd z)))"

definition Reqs ::
  "AnalogBuffer \<Rightarrow> (time \<times> ctl) multiset \<Rightarrow> (time \<times> int \<times> DownstreamEvent) multiset" where
  "Reqs b M = (\<Sum>z\<in>#M. mset (freqs b (fst z) (snd z)))"

definition Horizon :: "AnalogBuffer \<Rightarrow> (time \<times> ctl) multiset \<Rightarrow> time \<Rightarrow> time" where
  "Horizon b M a = Max (insert a ((\<lambda>z. fin b (fst z) (snd z)) ` set_mset M))"

fun sequential :: "ctl \<Rightarrow> bool" where
  "sequential (Start_DR xs) = False"
| "sequential (Wake_DR xs) = False"
| "sequential c = True"

text \<open>
  The time an event takes to pass the cells of a stage; the times at which a driver
  starts its events; the lines printed for a caught failure; and the lines that the
  handoff of an event at time \<open>t\<close> leaves when the routing stage fails.
\<close>

definition traversal_time :: "AnalogBuffer \<Rightarrow> time" where
  "traversal_time b = real (nat (buffer_length b)) * (sample_length b + chain_delay b)"

fun starts :: "time \<Rightarrow> (DownstreamEvent \<times> time) list \<Rightarrow> (time \<times> DownstreamEvent) list" where
  "starts t [] = []"
| "starts t ((e, g) # xs) = (t, e) # starts (t + g) xs"

fun is_caught :: "line \<Rightarrow> bool" where
  "is_caught (Caught_failed t x) = True"
| "is_caught l = False"

definition rejection :: "AMUX option \<Rightarrow> int \<Rightarrow> DownstreamEvent \<Rightarrow> time \<Rightarrow> line list" where
  "rejection mux i e t =
     (case mux of
        None \<Rightarrow> []
      | Some m \<Rightarrow> caught_line (mx_fin t (fst (plan m i e t)))
                   (mx_out (fst (plan m i e t)) (snd (plan m i e t))))"

text \<open>
  The environment after a number of steps of the engine, or the exception with which a
  step crashed.
\<close>

fun run_steps :: "nat \<Rightarrow> environment \<Rightarrow> exn + environment" where
  "run_steps 0 env = Inr env"
| "run_steps (Suc n) env =
     (case queue env of
        [] \<Rightarrow> Inr env
      | ev # q \<Rightarrow>
          (case process_event ev (env\<lparr>now := ev_time ev, queue := q\<rparr>) of
             Inl x \<Rightarrow> Inl x
           | Inr env' \<Rightarrow> run_steps n env'))"

text \<open>
  The environments in which the stage \<open>b\<close> is running: the queue holds events of the
  thirteen shapes, in order, and the stage object is \<open>b\<close> up to its counter.
\<close>

definition consistent :: "AnalogBuffer \<Rightarrow> environment \<Rightarrow> bool" where
  "consistent b env \<longleftrightarrow>
     (\<exists>q k. queue env = map aentry q \<and> sorted (map akey q) \<and>
        (\<forall>y \<in> set q. gaps_ok (snd (snd y))) \<and>
        stage env = b\<lparr>downstream_events_processed := k\<rparr>)"


text \<open>
  An example of a routing stage and of a stage wired to it: the routing stage rejects
  the sample with index 0 after one unit of time and accepts every other sample after
  two.
\<close>

definition picky_mux :: AMUX where
  "picky_mux =
     \<lparr>plan = (\<lambda>i e t. if sample_index (event_info e) = 0
                       then ([1], Failed (Failure ''full''))
                       else ([2], Succeeded))\<rparr>"

definition tail_buffer :: AnalogBuffer where
  "tail_buffer = set_amux picky_mux (AnalogBuffer_init 3 ''tail'' 1 5 0 False)"

subsection \<open>Control points with rounded sums\<close>
















section \<open>The engine on control points\<close>

lemma buffer_in_handoff:
  "buffer_in event =
     Read (\<lambda>t self.
       (if debug self
        then Print (In_buffer t (buffer_location self) (buffer_index self) (amux self))
        else (\<lambda>p. p))
       (Read (\<lambda>t self. chain event (py_range (buffer_length self)) (handoff event))))"
  by (simp add: buffer_in_def handoff_def)

lemma chain_next:
  "exec (chain e is (handoff e)) [] env =
     fold (\<lambda>(d, c'). schedule d (prio c') (outc c') (cbs c')) (next_cell (stage env) e is)
       (env\<lparr>printed := printed env @
           (if is = [] then dbg (stage env) [Call_to_remove (now env) (buffer_location (stage env)) (buffer_index (stage env)) (amux (stage env))] else [])\<rparr>)"
  apply (cases "is")
   apply (simp_all add: handoff_def dbg_def k_rb_def k_unit_def k_chain_def URGENT_def schedule_def)
  done

lemma mx_next:
  "exec (entry_point_body ds out) [Suspended (await Return) [Suspended k_rb []]] env =
     fold (\<lambda>(d, c'). schedule d (prio c') (outc c') (cbs c')) (next_mx ds out) env"
  apply (cases ds; cases out)
   apply (simp_all add: await_def NORMAL_def)
  done

lemma dr_next:
  "\<forall>x \<in> set xs. 0 \<le> snd x \<Longrightarrow> exec (launcher xs) [] env =
     fold (\<lambda>(d, c'). schedule d (prio c') (outc c') (cbs c')) (next_dr xs) env"
  apply (cases xs)
   apply (auto simp add: await_def NORMAL_def URGENT_def)
  done

lemma process_event_entry:
  assumes "valid (stage env)" and "gaps_ok c"
  shows "process_event (entry t i c) env = Inr (perform c env)"
proof (cases c)
  case (Start_BI e)
  then show ?thesis using assms
    by (simp add: process_event_def entry_def perform_def buffer_in_handoff chain_next dbg_def)
next
  case (Start_SH e i "is")
  then show ?thesis using assms
    by (simp add: process_event_def entry_def perform_def sample_and_hold_unit_def valid_def dbg_def k_sh_def NORMAL_def)
next
  case (Wake_SH e i "is")
  then show ?thesis using assms
    by (simp add: process_event_def entry_def perform_def valid_def dbg_def k_sh_def NORMAL_def await_def)
next
  case (Done_SH e "is")
  then show ?thesis using assms
    by (simp add: process_event_def entry_def perform_def valid_def dbg_def k_unit_def NORMAL_def await_def)
next
  case (Wake_chain e "is")
  then show ?thesis using assms
    by (simp add: process_event_def entry_def perform_def k_chain_def await_def chain_next)
next
  case (Start_RB e m)
  then show ?thesis using assms
    by (cases m) (simp_all add: process_event_def entry_def perform_def remove_from_buffer_def dbg_def NORMAL_def URGENT_def entry_point_def)
next
  case (Start_MX ds out)
  then show ?thesis using assms
    by (simp add: process_event_def entry_def perform_def mx_next)
next
  case (Wake_MX ds out)
  then show ?thesis using assms
    by (simp add: process_event_def entry_def perform_def mx_next await_def)
next
  case (Done_MX v)
  then show ?thesis using assms
    by (cases v) (simp_all add: process_event_def entry_def perform_def await_def NORMAL_def)
next
  case (Done_RB v)
  then show ?thesis using assms
    by (cases v) (simp_all add: process_event_def entry_def perform_def await_def NORMAL_def k_rb_def)
next
  case Finished
  then show ?thesis using assms
    by (simp add: process_event_def entry_def perform_def)
next
  case (Start_DR xs)
  then show ?thesis using assms
    by (simp add: process_event_def entry_def perform_def dr_next)
next
  case (Wake_DR xs)
  then show ?thesis using assms
    by (simp add: process_event_def entry_def perform_def dr_next await_def)
qed

lemma mx_fin_ge: "t \<le> mx_fin t ds"
proof (induction ds arbitrary: t)
  case Nil
  then show ?case by simp
next
  case (Cons d ds)
  show ?case
  proof (cases "d < 0")
    case True
    then show ?thesis by simp
  next
    case False
    then have "t \<le> t + d" by simp
    also have "\<dots> \<le> mx_fin (t + d) ds" by (rule Cons.IH)
    finally show ?thesis using False by simp
  qed
qed

lemma rb_fin_ge: "t \<le> rb_fin b t e m"
  by (cases m) (auto simp: mx_fin_ge)

lemma cells_fin_ge: "valid b \<Longrightarrow> t \<le> cells_fin b t e is"
proof (induction "is" arbitrary: t)
  case Nil
  then show ?case by (simp add: rb_fin_ge)
next
  case (Cons i "is")
  have "t \<le> t + sample_length b + chain_delay b" using Cons.prems by (simp add: valid_def)
  also have "\<dots> \<le> cells_fin b (t + sample_length b + chain_delay b) e is" using Cons by simp
  finally show ?case by simp
qed

lemma dr_fin_ge: "valid b \<Longrightarrow> t \<le> dr_fin b t xs"
  by (cases xs) (auto simp: cells_fin_ge max_def intro: order_trans[OF cells_fin_ge])

lemma fin_ge: "valid b \<Longrightarrow> t \<le> fin b t c"
proof (cases c)
  case (Wake_SH e i "is")
  assume v: "valid b"
  have "t \<le> t + chain_delay b" using v by (simp add: valid_def)
  also have "\<dots> \<le> cells_fin b (t + chain_delay b) e is" by (rule cells_fin_ge[OF v])
  finally show ?thesis using Wake_SH by simp
next
  case (Done_SH e "is")
  assume v: "valid b"
  have "t \<le> t + chain_delay b" using v by (simp add: valid_def)
  also have "\<dots> \<le> cells_fin b (t + chain_delay b) e is" by (rule cells_fin_ge[OF v])
  finally show ?thesis using Done_SH by simp
next
  case (Start_SH e i "is")
  assume v: "valid b"
  have "t \<le> t + sample_length b + chain_delay b" using v by (simp add: valid_def)
  also have "\<dots> \<le> cells_fin b (t + sample_length b + chain_delay b) e is"
    by (rule cells_fin_ge[OF v])
  finally show ?thesis using Start_SH by simp
qed (simp_all add: cells_fin_ge rb_fin_ge mx_fin_ge dr_fin_ge)

lemma steps_next_cell:
  "(\<Sum>x\<leftarrow>next_cell b e is. steps b (t + fst x) (snd x)) = cells_steps b t e is"
  by (cases "is") simp_all

lemma steps_next_mx:
  "(\<Sum>x\<leftarrow>next_mx ds out. steps b (t + fst x) (snd x)) = mx_steps ds + 2"
  by (cases ds) simp_all

lemma steps_next_dr:
  "(\<Sum>x\<leftarrow>next_dr xs. steps b (t + fst x) (snd x)) + 1 = dr_steps b t xs"
  by (cases xs) auto

lemma steps_unfold:
  "steps b t c = 1 + (\<Sum>x\<leftarrow>succs b t c. steps b (t + fst x) (snd x))"
proof (cases c)
  case (Start_RB e m)
  then show ?thesis by (cases m) simp_all
next
  case (Start_DR xs)
  then show ?thesis using steps_next_dr[where xs=xs and b=b and t=t] by simp
next
  case (Wake_DR xs)
  then show ?thesis using steps_next_dr[where xs=xs and b=b and t=t] by simp
qed (simp_all add: steps_next_cell steps_next_mx)

lemma drops_next_cell: "(\<Sum>x\<leftarrow>next_cell b e is. drops b (snd x)) = rb_drops (amux b)"
  by (cases "is") simp_all

lemma drops_next_mx: "(\<Sum>x\<leftarrow>next_mx ds out. drops b (snd x)) = 0"
  by (cases ds) simp_all

lemma drops_next_dr:
  "(\<Sum>x\<leftarrow>next_dr xs. drops b (snd x)) = int (length xs) * rb_drops (amux b)"
  by (cases xs) (auto simp: algebra_simps)

lemma drops_unfold:
  "drops b c = bump c + (\<Sum>x\<leftarrow>succs b t c. drops b (snd x))"
proof (cases c)
  case (Start_RB e m)
  then show ?thesis by (cases m) simp_all
qed (simp_all add: drops_next_cell drops_next_mx drops_next_dr)

lemma freqs_next_cell:
  "concat (map (\<lambda>x. freqs b (t + fst x) (snd x)) (next_cell b e is)) = cells_reqs b t e is"
  by (cases "is") simp_all

lemma freqs_next_mx: "concat (map (\<lambda>x. freqs b (t + fst x) (snd x)) (next_mx ds out)) = []"
  by (cases ds) simp_all

lemma freqs_next_dr:
  "concat (map (\<lambda>x. freqs b (t + fst x) (snd x)) (next_dr xs)) = dr_reqs b t xs"
  by (cases xs) auto

lemma freqs_unfold:
  "freqs b t c = asks b t c @ concat (map (\<lambda>x. freqs b (t + fst x) (snd x)) (succs b t c))"
proof (cases c)
  case (Start_RB e m)
  then show ?thesis by (cases m) simp_all
qed (simp_all add: freqs_next_cell freqs_next_mx freqs_next_dr)

lemma flines_next_cell:
  "(if is = [] then dbg b [Call_to_remove t (buffer_location b) (buffer_index b) (amux b)] else []) @
   concat (map (\<lambda>x. flines b (t + fst x) (snd x)) (next_cell b e is)) = cells_lines b t e is"
  by (cases "is") simp_all

lemma flines_next_mx:
  "concat (map (\<lambda>x. flines b (t + fst x) (snd x)) (next_mx ds out)) =
   caught_line (mx_fin t ds) (mx_out ds out)"
  by (cases ds) simp_all

lemma flines_next_dr:
  "concat (map (\<lambda>x. flines b (t + fst x) (snd x)) (next_dr xs)) = dr_lines b t xs"
  by (cases xs) auto

lemma flines_unfold:
  "flines b t c = emits b t c @ concat (map (\<lambda>x. flines b (t + fst x) (snd x)) (succs b t c))"
proof (cases c)
  case (Start_BI e)
  then show ?thesis using flines_next_cell[of "py_range (buffer_length b)" b t e] by simp
next
  case (Wake_chain e "is")
  then show ?thesis using flines_next_cell[of "is" b t e] by simp
next
  case (Start_RB e m)
  then show ?thesis by (cases m) simp_all
next
  case (Done_RB v)
  then show ?thesis by (cases v) simp_all
next
  case (Done_MX v)
  then show ?thesis by (cases v) simp_all
qed (simp_all add: flines_next_mx flines_next_dr)

lemma fin_next_cell:
  "valid b \<Longrightarrow> foldr max (map (\<lambda>x. fin b (t + fst x) (snd x)) (next_cell b e is)) t = cells_fin b t e is"
  using cells_fin_ge[of b t e "is"] rb_fin_ge[of t b e "amux b"]
  by (cases "is") (simp_all add: max_def)

lemma fin_next_mx:
  "foldr max (map (\<lambda>x. fin b (t + fst x) (snd x)) (next_mx ds out)) t = mx_fin t ds"
  using mx_fin_ge[of t ds]
  by (cases ds) (auto simp add: max_def)

lemma fin_next_dr:
  "valid b \<Longrightarrow> foldr max (map (\<lambda>x. fin b (t + fst x) (snd x)) (next_dr xs)) t = dr_fin b t xs"
  using dr_fin_ge[of b t xs]
  by (cases xs) (auto simp add: max_def)

lemma fin_unfold:
  assumes "valid b"
  shows "fin b t c = foldr max (map (\<lambda>x. fin b (t + fst x) (snd x)) (succs b t c)) t"
proof (cases c)
  case (Start_SH e i "is")
  then show ?thesis using fin_ge[OF assms, of "t + sample_length b" "Wake_SH e i is"] assms
    by (simp add: max_def valid_def)
next
  case (Wake_SH e i "is")
  then show ?thesis using fin_ge[OF assms, of t "Done_SH e is"] by (simp add: max_def)
next
  case (Done_SH e "is")
  then show ?thesis using fin_ge[OF assms, of "t + chain_delay b" "Wake_chain e is"] assms
    by (simp add: max_def valid_def)
next
  case (Start_RB e m)
  then show ?thesis using mx_fin_ge[of t "fst (plan (the m) (buffer_index b) e t)"]
    by (cases m) (auto simp: max_def)
qed (simp_all add: fin_next_cell fin_next_mx fin_next_dr assms)

lemma key_aentry: "key (aentry x) = akey x"
  by (simp add: key_def aentry_def akey_def entry_def)

lemma insort_aentry:
  "insort_key key (aentry x) (map aentry q) = map aentry (insort_key akey x q)"
  by (induction q) (simp_all add: key_aentry)

lemma next_cell_frame [simp]:
  "next_cell (b\<lparr>downstream_events_processed := k\<rparr>) e is = next_cell b e is"
  by (cases "is") simp_all

lemma succs_frame [simp]: "succs (b\<lparr>downstream_events_processed := k\<rparr>) t c = succs b t c"
proof (cases c)
  case (Start_RB e m)
  then show ?thesis by (cases m) simp_all
qed simp_all

lemma emits_frame [simp]: "emits (b\<lparr>downstream_events_processed := k\<rparr>) t c = emits b t c"
  by (cases c) (simp_all add: dbg_def)

lemma asks_frame [simp]: "asks (b\<lparr>downstream_events_processed := k\<rparr>) t c = asks b t c"
proof (cases c)
  case (Start_RB e m)
  then show ?thesis by (cases m) simp_all
qed simp_all

lemma valid_frame [simp]: "valid (b\<lparr>downstream_events_processed := k\<rparr>) = valid b"
  by (simp add: valid_def)

lemma succs_gaps_ok:
  assumes "valid b" and "gaps_ok c"
  shows "\<forall>z \<in> set (succs b t c). 0 \<le> fst z \<and> gaps_ok (snd z)"
proof (cases c)
  case (Start_BI e)
  then show ?thesis by (cases "py_range (buffer_length b)") simp_all
next
  case (Wake_chain e "is")
  then show ?thesis by (cases "is") simp_all
next
  case (Start_RB e m)
  then show ?thesis by (cases m) simp_all
next
  case (Start_MX ds out)
  then show ?thesis by (cases ds) simp_all
next
  case (Wake_MX ds out)
  then show ?thesis by (cases ds) simp_all
next
  case (Start_DR xs)
  then show ?thesis using assms by (cases xs) auto
next
  case (Wake_DR xs)
  then show ?thesis using assms by (cases xs) auto
qed (use assms in \<open>simp_all add: valid_def\<close>)

lemma perform_sched:
  "perform c env =
     fold sched (succs (stage env) (now env) c)
       (env\<lparr>printed := printed env @ emits (stage env) (now env) c,
            stage := (stage env)\<lparr>downstream_events_processed :=
                        downstream_events_processed (stage env) + bump c\<rparr>,
            requests := requests env @ asks (stage env) (now env) c\<rparr>)"
proof -
  have "(\<lambda>(d, c'). schedule d (prio c') (outc c') (cbs c')) = sched"
    by (simp add: fun_eq_iff sched_def)
  then show ?thesis by (simp add: perform_def)
qed

lemma fold_sched_fields:
  "now (fold sched ss env) = now env"
  "stage (fold sched ss env) = stage env"
  "printed (fold sched ss env) = printed env"
  "requests (fold sched ss env) = requests env"
  by (induction ss arbitrary: env) (simp_all add: sched_def schedule_def)

lemma fold_sched_queue:
  assumes "queue env = map aentry q" and "sorted (map akey q)"
  shows "\<exists>q'. queue (fold sched ss env) = map aentry q' \<and> sorted (map akey q') \<and>
           image_mset tc (mset q') = image_mset tc (mset q) + mset (map (later (now env)) ss)"
  using assms
proof (induction ss arbitrary: env q)
  case Nil
  then show ?case by auto
next
  case (Cons z ss)
  let ?x = "(now env + fst z, eid_counter env, snd z)"
  let ?env = "sched z env"
  have ax: "\<lparr>ev_time = now env + fst z, ev_priority = prio (snd z), ev_id = eid_counter env,
             ev_outcome = outc (snd z), ev_callbacks = cbs (snd z)\<rparr> = aentry ?x"
    by (simp add: aentry_def entry_def)
  have q: "queue ?env = map aentry (insort_key akey ?x q)"
    by (simp add: sched_def schedule_def Cons.prems(1) ax insort_aentry)
  have s: "sorted (map akey (insort_key akey ?x q))"
    using Cons.prems(2) by (simp add: sorted_insort_key)
  have n: "now ?env = now env" by (simp add: sched_def schedule_def)
  from Cons.IH[OF q s] obtain q' where
    q': "queue (fold sched ss ?env) = map aentry q'" "sorted (map akey q')"
      "image_mset tc (mset q') =
         image_mset tc (mset (insort_key akey ?x q)) + mset (map (later (now ?env)) ss)"
    by blast
  have "image_mset tc (mset q') = image_mset tc (mset q) + mset (map (later (now env)) (z # ss))"
    using q'(3) by (simp add: n tc_def later_def)
  with q'(1,2) show ?case by auto
qed

lemma sorted_head_time:
  assumes "sorted (map akey (x # q))" and "y \<in> set q"
  shows "fst x \<le> fst y"
proof -
  have "akey x \<le> akey y" using assms by auto
  then show ?thesis by (auto simp: akey_def less_eq_prod_def)
qed

lemma bump_cases: "bump c = 0 \<or> bump c = 1"
proof (cases c)
  case (Start_RB e m)
  then show ?thesis by (cases m) simp_all
qed simp_all

lemma engine_step:
  assumes v: "valid b"
    and q: "queue env = map aentry (x # q)"
    and s: "sorted (map akey (x # q))"
    and w: "\<forall>y \<in> set (x # q). gaps_ok (snd (snd y))"
    and st: "stage env = b\<lparr>downstream_events_processed := k\<rparr>"
  shows "\<exists>env1 q1.
           process_event (aentry x) (env\<lparr>now := fst x, queue := map aentry q\<rparr>) = Inr env1 \<and>
           queue env1 = map aentry q1 \<and> sorted (map akey q1) \<and>
           (\<forall>y \<in> set q1. now env1 \<le> fst y \<and> gaps_ok (snd (snd y))) \<and>
           now env1 = fst x \<and>
           stage env1 = b\<lparr>downstream_events_processed := k + bump (snd (snd x))\<rparr> \<and>
           printed env1 = printed env @ emits b (fst x) (snd (snd x)) \<and>
           requests env1 = requests env @ asks b (fst x) (snd (snd x)) \<and>
           image_mset tc (mset q1) =
             image_mset tc (mset q) + mset (map (later (fst x)) (succs b (fst x) (snd (snd x))))"
proof -
  obtain t i c where x: "x = (t, i, c)" by (cases x) auto
  let ?env0 = "env\<lparr>now := t, queue := map aentry q\<rparr>"
  let ?base = "?env0\<lparr>printed := printed ?env0 @ emits (stage ?env0) (now ?env0) c,
            stage := (stage ?env0)\<lparr>downstream_events_processed :=
                        downstream_events_processed (stage ?env0) + bump c\<rparr>,
            requests := requests ?env0 @ asks (stage ?env0) (now ?env0) c\<rparr>"
  let ?env1 = "perform c ?env0"
  have wc: "gaps_ok c" using w x by simp
  have "process_event (entry t i c) ?env0 = Inr ?env1"
    by (rule process_event_entry) (use v st wc in simp_all)
  then have pe: "process_event (aentry x) ?env0 = Inr ?env1" by (simp add: aentry_def x)
  have e1: "?env1 = fold sched (succs b t c) ?base"
    by (simp add: perform_sched st)
  have bq: "queue ?base = map aentry q" by simp
  have sq: "sorted (map akey q)" using s by simp
  from fold_sched_queue[OF bq sq, of "succs b t c"] obtain q1 where
    q1: "queue ?env1 = map aentry q1" "sorted (map akey q1)"
      "image_mset tc (mset q1) = image_mset tc (mset q) + mset (map (later t) (succs b t c))"
    by (auto simp: e1)
  have n1: "now ?env1 = t" by (simp add: e1 fold_sched_fields)
  have "\<forall>y \<in> set q1. t \<le> fst y \<and> gaps_ok (snd (snd y))"
  proof
    fix y assume "y \<in> set q1"
    then have "tc y \<in># image_mset tc (mset q1)" by simp
    then have "tc y \<in> tc ` set q \<or> tc y \<in> later t ` set (succs b t c)"
      unfolding q1(3) by auto
    then show "t \<le> fst y \<and> gaps_ok (snd (snd y))"
    proof
      assume "tc y \<in> tc ` set q"
      then obtain y' where y': "y' \<in> set q" "tc y = tc y'" by auto
      have "t \<le> fst y'" using sorted_head_time[OF s y'(1)] x by simp
      moreover have "gaps_ok (snd (snd y'))" using w y'(1) by simp
      ultimately show ?thesis using y'(2) by (simp add: tc_def)
    next
      assume "tc y \<in> later t ` set (succs b t c)"
      then obtain z where z: "z \<in> set (succs b t c)" "tc y = later t z" by auto
      have "0 \<le> fst z \<and> gaps_ok (snd z)" using succs_gaps_ok[OF v wc, of t] z(1) by blast
      then show ?thesis using z(2) by (simp add: tc_def later_def)
    qed
  qed
  moreover have "stage ?env1 = b\<lparr>downstream_events_processed := k + bump c\<rparr>"
    by (simp add: e1 fold_sched_fields st)
  moreover have "printed ?env1 = printed env @ emits b t c"
    by (simp add: e1 fold_sched_fields st)
  moreover have "requests ?env1 = requests env @ asks b t c"
    by (simp add: e1 fold_sched_fields st)
  ultimately show ?thesis using pe q1 n1 x by (intro exI[of _ ?env1] exI[of _ q1]) simp
qed

lemma run_step:
  assumes v: "valid b"
    and q: "queue env = map aentry (x # q)"
    and s: "sorted (map akey (x # q))"
    and w: "\<forall>y \<in> set (x # q). gaps_ok (snd (snd y))"
    and st: "stage env = b\<lparr>downstream_events_processed := k\<rparr>"
  shows "\<exists>env1 q1. run env = run env1 \<and> queue env1 = map aentry q1 \<and> sorted (map akey q1) \<and>
           (\<forall>y \<in> set q1. now env1 \<le> fst y \<and> gaps_ok (snd (snd y))) \<and>
           now env1 = fst x \<and>
           stage env1 = b\<lparr>downstream_events_processed := k + bump (snd (snd x))\<rparr> \<and>
           printed env1 = printed env @ emits b (fst x) (snd (snd x)) \<and>
           requests env1 = requests env @ asks b (fst x) (snd (snd x)) \<and>
           image_mset tc (mset q1) =
             image_mset tc (mset q) + mset (map (later (fst x)) (succs b (fst x) (snd (snd x))))"
proof -
  from engine_step[OF assms] obtain env1 q1 where
    pe: "process_event (aentry x) (env\<lparr>now := fst x, queue := map aentry q\<rparr>) = Inr env1"
    and rest: "queue env1 = map aentry q1 \<and> sorted (map akey q1) \<and>
           (\<forall>y \<in> set q1. now env1 \<le> fst y \<and> gaps_ok (snd (snd y))) \<and>
           now env1 = fst x \<and>
           stage env1 = b\<lparr>downstream_events_processed := k + bump (snd (snd x))\<rparr> \<and>
           printed env1 = printed env @ emits b (fst x) (snd (snd x)) \<and>
           requests env1 = requests env @ asks b (fst x) (snd (snd x)) \<and>
           image_mset tc (mset q1) =
             image_mset tc (mset q) + mset (map (later (fst x)) (succs b (fst x) (snd (snd x))))"
    by blast
  have t: "ev_time (aentry x) = fst x" by (simp add: aentry_def entry_def)
  have "run env = run env1"
    using q pe by (subst run.simps) (simp add: t)
  then show ?thesis using rest by blast
qed

lemma sum_later:
  "(\<Sum>z\<in>#mset (map (later t) ss). f (fst z) (snd z)) = (\<Sum>x\<leftarrow>ss. f (t + fst x) (snd x))"
  by (induction ss) (simp_all add: later_def)

lemma Steps_succs: "steps b t c = 1 + Steps b (mset (map (later t) (succs b t c)))"
  unfolding Steps_def sum_later by (rule steps_unfold)

lemma Drops_succs: "drops b c = bump c + Drops b (mset (map (later t) (succs b t c)))"
  unfolding Drops_def sum_later[where f="\<lambda>t c. drops b c"] by (rule drops_unfold)

lemma mset_concat_sum: "mset (concat (map f xs)) = (\<Sum>x\<leftarrow>xs. mset (f x))"
  by (induction xs) simp_all

lemma Lines_succs:
  "mset (flines b t c) = mset (emits b t c) + Lines b (mset (map (later t) (succs b t c)))"
  unfolding Lines_def sum_later[where f="\<lambda>t c. mset (flines b t c)"]
  by (subst flines_unfold) (simp add: mset_concat_sum)

lemma Reqs_succs:
  "mset (freqs b t c) = mset (asks b t c) + Reqs b (mset (map (later t) (succs b t c)))"
  unfolding Reqs_def sum_later[where f="\<lambda>t c. mset (freqs b t c)"]
  by (subst freqs_unfold) (simp add: mset_concat_sum)

lemma foldr_max_Max: "foldr max xs (a::real) = Max (insert a (set xs))"
proof (induction xs)
  case Nil
  then show ?case by simp
next
  case (Cons x xs)
  have "Max (insert a (set (x # xs))) = Max (insert x (insert a (set xs)))"
    by (simp add: insert_commute)
  also have "\<dots> = max x (Max (insert a (set xs)))"
    by (rule Max_insert) simp_all
  finally show ?case using Cons by simp
qed

lemma Horizon_succs:
  assumes "valid b"
  shows "fin b t c = Horizon b (mset (map (later t) (succs b t c))) t"
proof -
  have "(\<lambda>z. fin b (fst z) (snd z)) ` later t ` set (succs b t c) =
        (\<lambda>x. fin b (t + fst x) (snd x)) ` set (succs b t c)"
    by (simp add: image_image later_def)
  then show ?thesis
    unfolding Horizon_def by (subst fin_unfold[OF assms]) (simp add: foldr_max_Max)
qed

lemma Max_merge:
  fixes a :: real
  assumes "finite A" and "finite B" and "B \<noteq> {}" and "a \<le> Max B"
  shows "Max (insert a (insert (Max B) A)) = Max (B \<union> A)"
proof (cases "A = {}")
  case True
  then show ?thesis using assms by (simp add: max_def)
next
  case False
  have l: "Max (insert a (insert (Max B) A)) = max a (max (Max B) (Max A))"
    using assms False by simp
  have r: "Max (B \<union> A) = max (Max B) (Max A)"
    using assms False by (simp add: Max_Un)
  have "max a (max (Max B) (Max A)) = max (Max B) (Max A)"
    using assms(4) by (simp add: max_def)
  then show ?thesis by (simp only: l r)
qed

lemma Horizon_step:
  assumes "valid b" and "a \<le> t"
  shows "Horizon b (add_mset (t, c) M) a = Horizon b (M + mset (map (later t) (succs b t c))) t"
proof -
  let ?F = "\<lambda>z. fin b (fst z) (snd z)"
  let ?B = "insert t (?F ` later t ` set (succs b t c))"
  let ?A = "?F ` set_mset M"
  have m: "Max ?B = fin b t c"
    using Horizon_succs[OF assms(1), of t c] by (simp add: Horizon_def)
  have "t \<le> fin b t c" by (rule fin_ge[OF assms(1)])
  then have le: "a \<le> Max ?B" using assms(2) m by simp
  have "Max (insert a (insert (Max ?B) ?A)) = Max (?B \<union> ?A)"
    by (rule Max_merge[OF _ _ _ le]) simp_all
  moreover have "insert a (insert (Max ?B) ?A) = insert a (?F ` set_mset (add_mset (t, c) M))"
    by (simp add: m)
  moreover have "?B \<union> ?A = insert t (?F ` set_mset (M + mset (map (later t) (succs b t c))))"
    by auto
  ultimately show ?thesis by (simp add: Horizon_def)
qed

lemma steps_pos: "steps b t c \<noteq> 0"
  by (subst Steps_succs) simp

lemma Steps_0: "Steps b M = 0 \<Longrightarrow> M = {#}"
  by (cases M) (simp_all add: Steps_def steps_pos)

lemma run_many:
  assumes v: "valid b"
  shows "Steps b (image_mset tc (mset q)) = n \<Longrightarrow> queue env = map aentry q \<Longrightarrow>
         sorted (map akey q) \<Longrightarrow> \<forall>y \<in> set q. now env \<le> fst y \<and> gaps_ok (snd (snd y)) \<Longrightarrow>
         stage env = b\<lparr>downstream_events_processed := k\<rparr> \<Longrightarrow>
         \<exists>env'. run env = Some (Inr env') \<and> queue env' = [] \<and>
           now env' = Horizon b (image_mset tc (mset q)) (now env) \<and>
           stage env' = b\<lparr>downstream_events_processed := k + Drops b (image_mset tc (mset q))\<rparr> \<and>
           mset (printed env') = mset (printed env) + Lines b (image_mset tc (mset q)) \<and>
           mset (requests env') = mset (requests env) + Reqs b (image_mset tc (mset q))"
proof (induction n arbitrary: q env k)
  case 0
  then have "q = []" using Steps_0[of b "image_mset tc (mset q)"] by simp
  then show ?case using 0
    by (subst run.simps) (simp add: Horizon_def Drops_def Lines_def Reqs_def)
next
  case (Suc n)
  then obtain x q' where xq: "q = x # q'" by (cases q) (auto simp: Steps_def)
  obtain t i c where x: "x = (t, i, c)" by (cases x) auto
  let ?ss = "mset (map (later t) (succs b t c))"
  let ?M' = "image_mset tc (mset q')"
  have w: "\<forall>y \<in> set (x # q'). gaps_ok (snd (snd y))" using Suc.prems(4) xq by simp
  from run_step[OF v Suc.prems(2)[unfolded xq] Suc.prems(3)[unfolded xq] w Suc.prems(5)]
  obtain env1 q1 where
    r: "run env = run env1" and q1: "queue env1 = map aentry q1" and s1: "sorted (map akey q1)"
    and w1: "\<forall>y \<in> set q1. now env1 \<le> fst y \<and> gaps_ok (snd (snd y))" and n1: "now env1 = t"
    and st1: "stage env1 = b\<lparr>downstream_events_processed := k + bump c\<rparr>"
    and p1: "printed env1 = printed env @ emits b t c"
    and r1: "requests env1 = requests env @ asks b t c"
    and m1: "image_mset tc (mset q1) = ?M' + ?ss"
    unfolding x by auto
  have M: "image_mset tc (mset q) = add_mset (t, c) ?M'" by (simp add: xq x tc_def)
  have "Steps b (image_mset tc (mset q)) = steps b t c + Steps b ?M'"
    by (simp add: M Steps_def)
  also have "\<dots> = Suc (Steps b (?M' + ?ss))"
    by (subst Steps_succs) (simp add: Steps_def)
  finally have sn: "Steps b (image_mset tc (mset q1)) = n" using Suc.prems(1) m1 by simp
  from Suc.IH[OF sn q1 s1 w1 st1] obtain env' where
    e: "run env1 = Some (Inr env')" "queue env' = []"
      "now env' = Horizon b (image_mset tc (mset q1)) (now env1)"
      "stage env' = b\<lparr>downstream_events_processed :=
                       k + bump c + Drops b (image_mset tc (mset q1))\<rparr>"
      "mset (printed env') = mset (printed env1) + Lines b (image_mset tc (mset q1))"
      "mset (requests env') = mset (requests env1) + Reqs b (image_mset tc (mset q1))"
    by blast
  have le: "now env \<le> t" using Suc.prems(4) xq x by simp
  have h: "now env' = Horizon b (image_mset tc (mset q)) (now env)"
    using e(3) by (simp add: M m1 n1 Horizon_step[OF v le])
  have "Drops b (image_mset tc (mset q)) = drops b c + Drops b ?M'"
    by (simp add: M Drops_def)
  also have "\<dots> = bump c + Drops b (?M' + ?ss)"
    by (subst Drops_succs[where t=t]) (simp add: Drops_def)
  finally have d: "stage env' =
      b\<lparr>downstream_events_processed := k + Drops b (image_mset tc (mset q))\<rparr>"
    using e(4) by (simp add: m1)
  have "Lines b (image_mset tc (mset q)) = mset (flines b t c) + Lines b ?M'"
    by (simp add: M Lines_def)
  also have "\<dots> = mset (emits b t c) + Lines b (?M' + ?ss)"
    by (subst Lines_succs) (simp add: Lines_def)
  finally have l: "mset (printed env') = mset (printed env) + Lines b (image_mset tc (mset q))"
    using e(5) by (simp add: m1 p1)
  have "Reqs b (image_mset tc (mset q)) = mset (freqs b t c) + Reqs b ?M'"
    by (simp add: M Reqs_def)
  also have "\<dots> = mset (asks b t c) + Reqs b (?M' + ?ss)"
    by (subst Reqs_succs) (simp add: Reqs_def)
  finally have q: "mset (requests env') = mset (requests env) + Reqs b (image_mset tc (mset q))"
    using e(6) by (simp add: m1 r1)
  show ?case using r e(1,2) h d l q by simp
qed

lemma succs_sequential:
  assumes "sequential c"
  shows "succs b t c = [] \<or> (\<exists>z. succs b t c = [z] \<and> sequential (snd z))"
proof (cases c)
  case (Start_BI e)
  then show ?thesis by (cases "py_range (buffer_length b)") simp_all
next
  case (Wake_chain e "is")
  then show ?thesis by (cases "is") simp_all
next
  case (Start_RB e m)
  then show ?thesis by (cases m) simp_all
next
  case (Start_MX ds out)
  then show ?thesis by (cases ds) simp_all
next
  case (Wake_MX ds out)
  then show ?thesis by (cases ds) simp_all
qed (use assms in simp_all)

lemma run_single:
  assumes v: "valid b"
  shows "steps b t c = n \<Longrightarrow> sequential c \<Longrightarrow> queue env = [entry t i c] \<Longrightarrow>
         stage env = b\<lparr>downstream_events_processed := k\<rparr> \<Longrightarrow>
         \<exists>env'. run env = Some (Inr env') \<and>
           printed env' = printed env @ flines b t c \<and>
           requests env' = requests env @ freqs b t c"
proof (induction n arbitrary: t c i env k)
  case 0
  then show ?case by (simp add: steps_pos)
next
  case (Suc n)
  have q: "queue env = map aentry ((t, i, c) # [])" using Suc.prems(3) by (simp add: aentry_def)
  have s: "sorted (map akey ((t, i, c) # []))" by simp
  have w: "\<forall>y \<in> set ((t, i, c) # []). gaps_ok (snd (snd y))" using Suc.prems(2) by (cases c) simp_all
  from run_step[OF v q s w Suc.prems(4)] obtain env1 q1 where
    r: "run env = run env1" and q1: "queue env1 = map aentry q1"
    and st1: "stage env1 = b\<lparr>downstream_events_processed := k + bump c\<rparr>"
    and p1: "printed env1 = printed env @ emits b t c"
    and r1: "requests env1 = requests env @ asks b t c"
    and m1: "image_mset tc (mset q1) = mset (map (later t) (succs b t c))"
    by auto
  from succs_sequential[OF Suc.prems(2), of b t] show ?case
  proof
    assume e: "succs b t c = []"
    then have "q1 = []" using m1 by simp
    then have "run env1 = Some (Inr env1)" using q1 by (subst run.simps) simp
    moreover have "flines b t c = emits b t c" by (subst flines_unfold) (simp add: e)
    moreover have "freqs b t c = asks b t c" by (subst freqs_unfold) (simp add: e)
    ultimately show ?thesis using r p1 r1 by simp
  next
    assume "\<exists>z. succs b t c = [z] \<and> sequential (snd z)"
    then obtain z where z: "succs b t c = [z]" "sequential (snd z)" by auto
    have "mset (map tc q1) = {#later t z#}" using m1 z by simp
    then have "map tc q1 = [later t z]" by (metis mset_single_iff_right mset.simps(1) mset.simps(2))
    then obtain y where y: "q1 = [y]" "tc y = later t z" by auto
    have qe: "queue env1 = [entry (t + fst z) (fst (snd y)) (snd z)]"
      using q1 y by (simp add: aentry_def tc_def later_def)
    have "steps b t c = Suc (steps b (t + fst z) (snd z))"
      by (subst steps_unfold) (simp add: z)
    then have sn: "steps b (t + fst z) (snd z) = n" using Suc.prems(1) by simp
    from Suc.IH[OF sn z(2) qe st1] obtain env' where
      e: "run env1 = Some (Inr env')"
        "printed env' = printed env1 @ flines b (t + fst z) (snd z)"
        "requests env' = requests env1 @ freqs b (t + fst z) (snd z)"
      by blast
    have "flines b t c = emits b t c @ flines b (t + fst z) (snd z)"
      by (subst flines_unfold) (simp add: z)
    moreover have "freqs b t c = asks b t c @ freqs b (t + fst z) (snd z)"
      by (subst freqs_unfold) (simp add: z)
    ultimately show ?thesis using r e p1 r1 by simp
  qed
qed

lemma start_queue:
  "start g (new_environment b) =
     \<lparr>now = 0, queue = [\<lparr>ev_time = 0, ev_priority = URGENT, ev_id = 0, ev_outcome = Succeeded,
                            ev_callbacks = [Suspended (\<lambda>r. g) []]\<rparr>],
      eid_counter = 1, stage = b, printed = [], requests = []\<rparr>"
  by (simp add: start_def new_environment_def schedule_def)

lemma Horizon_single: "valid b \<Longrightarrow> Horizon b {#(t, c)#} t = fin b t c"
  using fin_ge[of b t c] by (simp add: Horizon_def max_def)

lemma run_buffer_in:
  assumes v: "valid b"
  shows "\<exists>env'. run (start (buffer_in e) (new_environment b)) = Some (Inr env') \<and>
           queue env' = [] \<and>
           now env' = cells_fin b 0 e (py_range (buffer_length b)) \<and>
           stage env' = b\<lparr>downstream_events_processed :=
                            downstream_events_processed b + rb_drops (amux b)\<rparr> \<and>
           printed env' = flines b 0 (Start_BI e) \<and>
           requests env' = cells_reqs b 0 e (py_range (buffer_length b))"
proof -
  let ?env = "start (buffer_in e) (new_environment b)"
  let ?q = "[(0, 0, Start_BI e)] :: pending list"
  have q: "queue ?env = map aentry ?q"
    by (simp add: start_queue aentry_def entry_def)
  have st: "stage ?env = b\<lparr>downstream_events_processed := downstream_events_processed b\<rparr>"
    by (simp add: start_queue)
  have w: "\<forall>y \<in> set ?q. now ?env \<le> fst y \<and> gaps_ok (snd (snd y))" by (simp add: start_queue)
  from run_many[OF v refl q _ w st] obtain env' where
    e: "run ?env = Some (Inr env')" "queue env' = []"
      "now env' = Horizon b (image_mset tc (mset ?q)) (now ?env)"
      "stage env' = b\<lparr>downstream_events_processed :=
         downstream_events_processed b + Drops b (image_mset tc (mset ?q))\<rparr>"
    by auto
  have q1: "queue ?env = [entry 0 0 (Start_BI e)]" by (simp add: start_queue entry_def)
  from run_single[OF v refl _ q1 st] obtain env'' where
    e': "run ?env = Some (Inr env'')" "printed env'' = printed ?env @ flines b 0 (Start_BI e)"
      "requests env'' = requests ?env @ freqs b 0 (Start_BI e)"
    by auto
  have same: "env'' = env'" using e(1) e'(1) by simp
  have "now env' = cells_fin b 0 e (py_range (buffer_length b))"
    using e(3) Horizon_single[OF v, of 0 "Start_BI e"] by (simp add: tc_def start_queue)
  moreover have "Drops b (image_mset tc (mset ?q)) = rb_drops (amux b)"
    by (simp add: Drops_def tc_def)
  ultimately show ?thesis using e e' same by (simp add: start_queue)
qed

lemma run_launcher:
  assumes v: "valid b" and g: "\<forall>x \<in> set xs. 0 \<le> snd x"
  shows "\<exists>env'. run (start (launcher xs) (new_environment b)) = Some (Inr env') \<and>
           queue env' = [] \<and>
           now env' = dr_fin b 0 xs \<and>
           stage env' = b\<lparr>downstream_events_processed :=
                            downstream_events_processed b + int (length xs) * rb_drops (amux b)\<rparr> \<and>
           mset (printed env') = mset (dr_lines b 0 xs) \<and>
           mset (requests env') = mset (dr_reqs b 0 xs)"
proof -
  let ?env = "start (launcher xs) (new_environment b)"
  let ?q = "[(0, 0, Start_DR xs)] :: pending list"
  have q: "queue ?env = map aentry ?q"
    by (simp add: start_queue aentry_def entry_def)
  have st: "stage ?env = b\<lparr>downstream_events_processed := downstream_events_processed b\<rparr>"
    by (simp add: start_queue)
  have w: "\<forall>y \<in> set ?q. now ?env \<le> fst y \<and> gaps_ok (snd (snd y))" using g by (simp add: start_queue)
  from run_many[OF v refl q _ w st] obtain env' where
    e: "run ?env = Some (Inr env')" "queue env' = []"
      "now env' = Horizon b (image_mset tc (mset ?q)) (now ?env)"
      "stage env' = b\<lparr>downstream_events_processed :=
         downstream_events_processed b + Drops b (image_mset tc (mset ?q))\<rparr>"
      "mset (printed env') = mset (printed ?env) + Lines b (image_mset tc (mset ?q))"
      "mset (requests env') = mset (requests ?env) + Reqs b (image_mset tc (mset ?q))"
    by auto
  have "now env' = dr_fin b 0 xs"
    using e(3) Horizon_single[OF v, of 0 "Start_DR xs"] by (simp add: tc_def start_queue)
  then show ?thesis using e
    by (simp add: start_queue Drops_def Lines_def Reqs_def tc_def)
qed

lemma length_py_range [simp]: "length (py_range n) = nat n"
  by (simp add: py_range_def)

lemma cells_time:
  "t + sample_length b + chain_delay b + real n * (sample_length b + chain_delay b) =
   t + real (Suc n) * (sample_length b + chain_delay b)"
  by (simp add: algebra_simps)

lemma cells_fin_closed:
  "cells_fin b t e is =
     rb_fin b (t + real (length is) * (sample_length b + chain_delay b)) e (amux b)"
proof (induction "is" arbitrary: t)
  case Nil
  then show ?case by simp
next
  case (Cons i "is")
  show ?case
    unfolding cells_fin.simps Cons.IH list.size(4) cells_time by simp
qed

lemma cells_reqs_closed:
  "cells_reqs b t e is =
     rb_reqs b (t + real (length is) * (sample_length b + chain_delay b)) e (amux b)"
proof (induction "is" arbitrary: t)
  case Nil
  then show ?case by simp
next
  case (Cons i "is")
  show ?case
    unfolding cells_reqs.simps Cons.IH list.size(4) cells_time by simp
qed

lemma filter_dbg: "filter P (dbg b ls) = dbg b (filter P ls)"
  by (simp add: dbg_def)

lemma caught_caught_line: "filter is_caught (caught_line t v) = caught_line t v"
  by (cases v) simp_all

lemma caught_rb_lines: "filter is_caught (rb_lines b t e m) = rejection m (buffer_index b) e t"
  by (cases m) (simp_all add: filter_dbg rejection_def caught_caught_line dbg_def)

lemma caught_cells_lines:
  "filter is_caught (cells_lines b t e is) =
     rejection (amux b) (buffer_index b) e
       (t + real (length is) * (sample_length b + chain_delay b))"
proof (induction "is" arbitrary: t)
  case Nil
  then show ?case by (simp add: filter_dbg caught_rb_lines dbg_def)
next
  case (Cons i "is")
  have "filter is_caught (cells_lines b t e (i # is)) =
        filter is_caught (cells_lines b (t + sample_length b + chain_delay b) e is)"
    by (simp add: filter_dbg dbg_def)
  then show ?case unfolding Cons.IH list.size(4) cells_time by simp
qed

lemma dr_reqs_closed:
  "dr_reqs b t xs =
     concat (map (\<lambda>x. rb_reqs b (fst x + traversal_time b) (snd x) (amux b)) (starts t xs))"
  by (induction xs arbitrary: t) (auto simp: cells_reqs_closed traversal_time_def)

lemma caught_dr_lines:
  "filter is_caught (dr_lines b t xs) =
     concat (map (\<lambda>x. rejection (amux b) (buffer_index b) (snd x) (fst x + traversal_time b))
               (starts t xs))"
  by (induction xs arbitrary: t)
     (auto simp: caught_cells_lines traversal_time_def filter_dbg dbg_def)

lemma helper_launcher:
  "\<forall>i \<in> set is. i < length evs \<Longrightarrow>
   multiple_event_helper_loop evs is = launcher (map (\<lambda>i. (evs ! i, 1)) is)"
  by (induction "is") simp_all

subsection \<open>Running to the end on literal environments\<close>

lemma exec_remove_None:
  "exec (remove_from_buffer e None) waiting env =
     schedule 0 NORMAL Succeeded waiting
       (env\<lparr>printed := printed env @
                (if debug (stage env)
                 then [At_remove (now env) (buffer_location (stage env)) (buffer_index (stage env)),
                       No_downstream_mux (now env),
                       Out_of_tail (event_number (detection_event_info e))
                         (sample_index (event_info e))]
                 else []),
            stage := (stage env)\<lparr>downstream_events_processed :=
                       downstream_events_processed (stage env) + 1\<rparr>\<rparr>)"
  by (simp add: remove_from_buffer_def)

lemma run_literal:
  "run \<lparr>now = t, queue = ev # q, eid_counter = n, stage = b, printed = p, requests = r\<rparr> =
     (case process_event ev
             \<lparr>now = ev_time ev, queue = q, eid_counter = n, stage = b, printed = p,
              requests = r\<rparr> of
        Inl x \<Rightarrow> Some (Inl x)
      | Inr env' \<Rightarrow> run env')"
  by (subst run.simps) simp

lemma run_literal_Nil:
  "run \<lparr>now = t, queue = [], eid_counter = n, stage = b, printed = p, requests = r\<rparr> =
     Some (Inr \<lparr>now = t, queue = [], eid_counter = n, stage = b, printed = p, requests = r\<rparr>)"
  by (subst run.simps) simp

subsection \<open>Closed forms\<close>

lemma caught_flines_BI:
  "filter is_caught (flines b 0 (Start_BI e)) =
     rejection (amux b) (buffer_index b) e (traversal_time b)"
  by (simp add: filter_dbg dbg_def caught_cells_lines traversal_time_def)

lemma snd_starts: "snd ` set (starts t xs) = fst ` set xs"
proof (induction xs arbitrary: t)
  case Nil
  then show ?case by simp
next
  case (Cons x xs)
  obtain e g where x: "x = (e, g)" by (cases x) auto
  show ?case using Cons.IH[of "t + g"] by (simp add: x)
qed

lemma length_starts [simp]: "length (starts t xs) = length xs"
  by (induction xs arbitrary: t) auto

lemma dr_fin_unit_gaps:
  assumes "amux b = None" and "sample_length b = 1" and "chain_delay b = 0"
    and "buffer_length b = 5"
  shows "xs \<noteq> [] \<Longrightarrow> \<forall>x \<in> set xs. snd x = 1 \<Longrightarrow> dr_fin b t xs = t + real (length xs) + 4"
proof (induction xs arbitrary: t)
  case Nil
  then show ?case by simp
next
  case (Cons x xs)
  obtain e where x: "x = (e, 1)" using Cons.prems(2) by (cases x) auto
  have c: "cells_fin b t e (py_range (buffer_length b)) = t + 5"
    using assms by (simp add: cells_fin_closed)
  show ?case
  proof (cases "xs = []")
    case True
    then show ?thesis using c x by simp
  next
    case False
    then have "dr_fin b (t + 1) xs = t + 1 + real (length xs) + 4"
      using Cons.IH[of "t + 1"] Cons.prems(2) by simp
    then show ?thesis using c x by simp
  qed
qed

lemma concat_map_single: "concat (map (\<lambda>x. [f x]) xs) = map f xs"
  by (induction xs) simp_all

lemma dr_reqs_Some:
  "amux b = Some m \<Longrightarrow>
   dr_reqs b t xs = map (\<lambda>x. (fst x + traversal_time b, buffer_index b, snd x)) (starts t xs)"
  by (simp add: dr_reqs_closed concat_map_single)

lemma dr_reqs_None: "amux b = None \<Longrightarrow> dr_reqs b t xs = []"
  by (simp add: dr_reqs_closed)

lemma run_sample_and_hold_unit:
  "0 \<le> sample_length b \<Longrightarrow>
   run (start (sample_and_hold_unit e i) (new_environment b)) =
     Some (Inr \<lparr>now = sample_length b, queue = [], eid_counter = 3, stage = b,
                printed =
                  (if debug b
                   then [Unit_starting 0 (buffer_location b) (buffer_index b) i
                           (event_number (detection_event_info e))
                           (sample_index (event_info e)) (amux b),
                         Unit_finished (sample_length b) (buffer_location b) (buffer_index b) i
                           (event_number (detection_event_info e))
                           (sample_index (event_info e)) (amux b)]
                   else []),
                requests = []\<rparr>)"
  by (simp add: start_queue run_literal run_literal_Nil process_event_def
        sample_and_hold_unit_def schedule_def NORMAL_def await_def)

subsection \<open>Every step of a run\<close>

lemma consistent_step:
  assumes v: "valid b" and c: "consistent b env" and q: "queue env = ev # q"
  shows "\<exists>env' n. process_event ev (env\<lparr>now := ev_time ev, queue := q\<rparr>) = Inr env' \<and>
           consistent b env' \<and> (n = 0 \<or> n = 1) \<and>
           stage env' = (stage env)\<lparr>downstream_events_processed :=
                           downstream_events_processed (stage env) + n\<rparr>"
proof -
  from c obtain aq k where
    a: "queue env = map aentry aq" "sorted (map akey aq)"
      "\<forall>y \<in> set aq. gaps_ok (snd (snd y))"
      "stage env = b\<lparr>downstream_events_processed := k\<rparr>"
    unfolding consistent_def by blast
  from a(1) q obtain x aq' where x: "aq = x # aq'" "ev = aentry x" "q = map aentry aq'"
    by (cases aq) auto
  have t: "ev_time (aentry x) = fst x" by (simp add: aentry_def entry_def)
  from engine_step[OF v a(1)[unfolded x(1)] a(2)[unfolded x(1)] a(3)[unfolded x(1)] a(4)]
  obtain env1 q1 where
    e: "process_event (aentry x) (env\<lparr>now := fst x, queue := map aentry aq'\<rparr>) = Inr env1"
      "queue env1 = map aentry q1" "sorted (map akey q1)"
      "\<forall>y \<in> set q1. now env1 \<le> fst y \<and> gaps_ok (snd (snd y))"
      "stage env1 = b\<lparr>downstream_events_processed := k + bump (snd (snd x))\<rparr>"
    by blast
  have "consistent b env1" unfolding consistent_def using e(2,3,4,5) by blast
  moreover have "stage env1 = (stage env)\<lparr>downstream_events_processed :=
                           downstream_events_processed (stage env) + bump (snd (snd x))\<rparr>"
    using e(5) a(4) by simp
  ultimately show ?thesis using e(1) x(2,3) t bump_cases[of "snd (snd x)"] by auto
qed

lemma run_steps_last:
  "run_steps (Suc n) env =
     (case run_steps n env of Inl x \<Rightarrow> Inl x | Inr env' \<Rightarrow> run_steps (Suc 0) env')"
proof (induction n arbitrary: env)
  case 0
  then show ?case by simp
next
  case (Suc n)
  show ?case
  proof (cases "queue env")
    case Nil
    then show ?thesis by simp
  next
    case (Cons ev q)
    show ?thesis
    proof (cases "process_event ev (env\<lparr>now := ev_time ev, queue := q\<rparr>)")
      case (Inl x)
      then show ?thesis using Cons by simp
    next
      case (Inr env')
      have "run_steps (Suc (Suc n)) env = run_steps (Suc n) env'" using Cons Inr by simp
      also have "\<dots> = (case run_steps n env' of Inl x \<Rightarrow> Inl x
                         | Inr env'' \<Rightarrow> run_steps (Suc 0) env'')"
        by (rule Suc.IH)
      also have "run_steps n env' = run_steps (Suc n) env" using Cons Inr by simp
      finally show ?thesis .
    qed
  qed
qed

lemma consistent_one_step:
  assumes v: "valid b" and c: "consistent b env"
  shows "\<exists>env' n. run_steps (Suc 0) env = Inr env' \<and> consistent b env' \<and> (n = 0 \<or> n = 1) \<and>
           stage env' = (stage env)\<lparr>downstream_events_processed :=
                           downstream_events_processed (stage env) + n\<rparr>"
proof (cases "queue env")
  case Nil
  then show ?thesis using c by (intro exI[of _ env] exI[of _ 0]) simp
next
  case (Cons ev q)
  from consistent_step[OF v c Cons] show ?thesis using Cons by auto
qed

lemma consistent_run_steps:
  assumes v: "valid b" and c: "consistent b env"
  shows "\<exists>env'. run_steps n env = Inr env' \<and> consistent b env'"
proof (induction n)
  case 0
  then show ?case using c by simp
next
  case (Suc n)
  then obtain env1 where e: "run_steps n env = Inr env1" "consistent b env1" by blast
  from consistent_one_step[OF v e(2)] show ?case
    by (subst run_steps_last) (auto simp: e(1))
qed

lemma consistent_launcher:
  "\<forall>x \<in> set xs. 0 \<le> snd x \<Longrightarrow> consistent b (start (launcher xs) (new_environment b))"
proof -
  assume g: "\<forall>x \<in> set xs. 0 \<le> snd x"
  let ?q = "[(0, 0, Start_DR xs)] :: pending list"
  have "queue (start (launcher xs) (new_environment b)) = map aentry ?q"
    by (simp add: start_queue aentry_def entry_def)
  moreover have "stage (start (launcher xs) (new_environment b)) =
      b\<lparr>downstream_events_processed := downstream_events_processed b\<rparr>"
    by (simp add: start_queue)
  moreover have "\<forall>y \<in> set ?q. gaps_ok (snd (snd y))" using g by simp
  moreover have "sorted (map akey ?q)" by simp
  ultimately show ?thesis unfolding consistent_def by blast
qed

lemma launcher_every_step:
  assumes "0 \<le> sample_length b" and "0 \<le> chain_delay b" and "\<forall>x \<in> set xs. 0 \<le> snd x"
  shows "\<exists>env1 env2 n.
           run_steps k (start (launcher xs) (new_environment b)) = Inr env1 \<and>
           run_steps (Suc k) (start (launcher xs) (new_environment b)) = Inr env2 \<and>
           (n = 0 \<or> n = 1) \<and>
           stage env2 = (stage env1)\<lparr>downstream_events_processed :=
                           downstream_events_processed (stage env1) + n\<rparr> \<and>
           stage env1 = b\<lparr>downstream_events_processed := downstream_events_processed (stage env1)\<rparr>"
proof -
  let ?env0 = "start (launcher xs) (new_environment b)"
  have v: "valid b" using assms by (simp add: valid_def)
  from consistent_run_steps[OF v consistent_launcher[OF assms(3)], of k] obtain env1 where
    e1: "run_steps k ?env0 = Inr env1" "consistent b env1" by blast
  from consistent_one_step[OF v e1(2)] obtain env2 n where
    e2: "run_steps (Suc 0) env1 = Inr env2" "n = 0 \<or> n = 1"
      "stage env2 = (stage env1)\<lparr>downstream_events_processed :=
                           downstream_events_processed (stage env1) + n\<rparr>"
    by blast
  have "run_steps (Suc k) ?env0 = Inr env2"
    by (simp only: run_steps_last[of k] e1(1) sum.case e2(1))
  moreover have "stage env1 =
      b\<lparr>downstream_events_processed := downstream_events_processed (stage env1)\<rparr>"
    using e1(2) unfolding consistent_def by auto
  ultimately show ?thesis using e1(1) e2(2,3) by blast
qed

lemma launcher_frame:
  assumes "0 \<le> sample_length b" and "0 \<le> chain_delay b" and "\<forall>x \<in> set xs. 0 \<le> snd x"
  shows "\<exists>env'. run (start (launcher xs) (new_environment b)) = Some (Inr env') \<and>
     stage env' = b\<lparr>downstream_events_processed := downstream_events_processed (stage env')\<rparr> \<and>
     (\<forall>r \<in> set (requests env'). fst (snd r) = buffer_index b \<and> snd (snd r) \<in> fst ` set xs)"
proof -
  have v: "valid b" using assms by (simp add: valid_def)
  from run_launcher[OF v assms(3)] obtain env' where
    e: "run (start (launcher xs) (new_environment b)) = Some (Inr env')"
      "stage env' = b\<lparr>downstream_events_processed :=
         downstream_events_processed b + int (length xs) * rb_drops (amux b)\<rparr>"
      "mset (requests env') = mset (dr_reqs b 0 xs)"
    by blast
  have s: "stage env' = b\<lparr>downstream_events_processed := downstream_events_processed (stage env')\<rparr>"
    by (subst (1 2) e(2)) simp
  have "set (requests env') = set (dr_reqs b 0 xs)" using e(3) by (rule mset_eq_setD)
  moreover have "\<forall>r \<in> set (dr_reqs b 0 xs).
      fst (snd r) = buffer_index b \<and> snd (snd r) \<in> fst ` set xs"
  proof (cases "amux b")
    case None
    then show ?thesis by (simp add: dr_reqs_None)
  next
    case (Some m)
    have "\<And>x. x \<in> set (starts 0 xs) \<Longrightarrow> snd x \<in> fst ` set xs"
      using snd_starts[of 0 xs] by auto
    then show ?thesis using Some by (auto simp: dr_reqs_Some)
  qed
  ultimately have r: "\<forall>r \<in> set (requests env').
      fst (snd r) = buffer_index b \<and> snd (snd r) \<in> fst ` set xs"
    by simp
  show ?thesis by (rule exI[of _ env']) (intro conjI e(1) s r)
qed

subsection \<open>The examples\<close>

lemma test_events_nth:
  "i < 10 \<Longrightarrow> test_events ! i =
     \<lparr>detection_event_info = \<lparr>event_number = 1, scintillator = 1, event_length = 1\<rparr>,
      event_info = \<lparr>sample_index = int i\<rparr>\<rparr>"
  by (simp add: test_events_def)

lemma tail_buffer_fields:
  "amux tail_buffer = Some picky_mux" "buffer_index tail_buffer = 3"
  "sample_length tail_buffer = 1" "buffer_length tail_buffer = 5"
  "chain_delay tail_buffer = 0" "debug tail_buffer = False"
  "downstream_events_processed tail_buffer = 0"
  by (simp_all add: tail_buffer_def set_amux_def AnalogBuffer_init_def)

lemma test_buffer_fields:
  "amux test_buffer = None" "buffer_index test_buffer = 0"
  "sample_length test_buffer = 1" "buffer_length test_buffer = 5"
  "chain_delay test_buffer = 0" "debug test_buffer = True"
  "downstream_events_processed test_buffer = 0"
  by (simp_all add: test_buffer_def AnalogBuffer_init_def)

section \<open>The engine with rounded sums on control points\<close>





lemma advance_0 [simp]: "advance rd t 0 = t"
  by (simp add: advance_def)






subsection \<open>The exact engine as an instance\<close>










subsection \<open>The clock of the traversal\<close>





subsection \<open>Rounding to a double\<close>



subsection \<open>Ten times a tenth\<close>








section \<open>Properties of the stage\<close>




text \<open>
  C2: the handoff of a stage without a downstream routing stage. Run with \<open>mux = None\<close>,
  \<open>remove_from_buffer\<close> adds exactly one to \<open>downstream_events_processed\<close>, makes no
  request and never suspends: from any environment the process ends at once and
  succeeds, whoever waits for it. Run as a process of its own, it brings the
  environment to rest without an exception, with the counter one higher and no
  request made.
\<close>

theorem terminal_drop:
  "exec (remove_from_buffer e None) waiting env =
     schedule 0 NORMAL Succeeded waiting
       (env\<lparr>printed := printed env @
                (if debug (stage env)
                 then [At_remove (now env) (buffer_location (stage env)) (buffer_index (stage env)),
                       No_downstream_mux (now env),
                       Out_of_tail (event_number (detection_event_info e))
                         (sample_index (event_info e))]
                 else []),
            stage := (stage env)\<lparr>downstream_events_processed :=
                       downstream_events_processed (stage env) + 1\<rparr>\<rparr>) \<and>
   run (start (remove_from_buffer e None) (new_environment b)) =
     Some (Inr \<lparr>now = 0, queue = [], eid_counter = 2,
                stage = b\<lparr>downstream_events_processed := downstream_events_processed b + 1\<rparr>,
                printed = (if debug b
                           then [At_remove 0 (buffer_location b) (buffer_index b),
                                 No_downstream_mux 0,
                                 Out_of_tail (event_number (detection_event_info e))
                                   (sample_index (event_info e))]
                           else []),
                requests = []\<rparr>)"
proof
  show "exec (remove_from_buffer e None) waiting env =
     schedule 0 NORMAL Succeeded waiting
       (env\<lparr>printed := printed env @
                (if debug (stage env)
                 then [At_remove (now env) (buffer_location (stage env)) (buffer_index (stage env)),
                       No_downstream_mux (now env),
                       Out_of_tail (event_number (detection_event_info e))
                         (sample_index (event_info e))]
                 else []),
            stage := (stage env)\<lparr>downstream_events_processed :=
                       downstream_events_processed (stage env) + 1\<rparr>\<rparr>)"
    by (simp add: remove_from_buffer_def)
next
  show "run (start (remove_from_buffer e None) (new_environment b)) =
     Some (Inr \<lparr>now = 0, queue = [], eid_counter = 2,
                stage = b\<lparr>downstream_events_processed := downstream_events_processed b + 1\<rparr>,
                printed = (if debug b
                           then [At_remove 0 (buffer_location b) (buffer_index b),
                                 No_downstream_mux 0,
                                 Out_of_tail (event_number (detection_event_info e))
                                   (sample_index (event_info e))]
                           else []),
                requests = []\<rparr>)"
    by (simp add: start_queue run_literal run_literal_Nil process_event_def exec_remove_None
          schedule_def NORMAL_def)
qed

text \<open>
  C3: failure isolation. Whatever the routing stage does with each request, and whatever
  the pauses between the starts of the events, the run of a driver that starts
  \<open>buffer_in\<close> on each event comes to rest without an exception: no failure of a
  handoff leaves \<open>buffer_in\<close>. Every event, also one started after an event that the
  routing stage rejected, is handed to the routing stage once its own traversal is
  over, and every rejection is printed as a line \<open>Caught_failed\<close> with the time at which
  the entry point failed and its exception.
\<close>

theorem failure_isolation:
  assumes "0 \<le> sample_length b" and "0 \<le> chain_delay b" and "\<forall>x \<in> set xs. 0 \<le> snd x"
  shows "\<exists>env'. run (start (launcher xs) (new_environment b)) = Some (Inr env') \<and>
     queue env' = [] \<and>
     (\<forall>m. amux b = Some m \<longrightarrow>
        mset (requests env') =
          mset (map (\<lambda>x. (fst x + traversal_time b, buffer_index b, snd x)) (starts 0 xs))) \<and>
     mset (filter is_caught (printed env')) =
       mset (concat (map (\<lambda>x. rejection (amux b) (buffer_index b) (snd x)
                                  (fst x + traversal_time b)) (starts 0 xs)))"
proof -
  have v: "valid b" using assms by (simp add: valid_def)
  from run_launcher[OF v assms(3)] obtain env' where
    e: "run (start (launcher xs) (new_environment b)) = Some (Inr env')" "queue env' = []"
      "mset (printed env') = mset (dr_lines b 0 xs)"
      "mset (requests env') = mset (dr_reqs b 0 xs)"
    by blast
  have "mset (filter is_caught (printed env')) = mset (filter is_caught (dr_lines b 0 xs))"
    using e(3) by (simp only: mset_filter)
  then have c: "mset (filter is_caught (printed env')) =
       mset (concat (map (\<lambda>x. rejection (amux b) (buffer_index b) (snd x)
                                  (fst x + traversal_time b)) (starts 0 xs)))"
    by (simp only: caught_dr_lines)
  have r: "\<forall>m. amux b = Some m \<longrightarrow>
        mset (requests env') =
          mset (map (\<lambda>x. (fst x + traversal_time b, buffer_index b, snd x)) (starts 0 xs))"
    using e(4) by (simp add: dr_reqs_Some)
  show ?thesis by (rule exI[of _ env']) (intro conjI e(1) e(2) r c)
qed

text \<open>Two events on the example stage, the first rejected and the second accepted.\<close>

theorem failure_isolation_witness:
  "0 \<le> sample_length tail_buffer \<and> 0 \<le> chain_delay tail_buffer \<and>
   (\<exists>env'. run (start (launcher [(test_events ! 0, 1), (test_events ! 1, 1)])
                   (new_environment tail_buffer)) = Some (Inr env') \<and>
      queue env' = [] \<and>
      mset (requests env') = {#(5, 3, test_events ! 0), (6, 3, test_events ! 1)#} \<and>
      mset (filter is_caught (printed env')) = {#Caught_failed 6 (Failure ''full'')#})"
proof -
  have h: "0 \<le> sample_length tail_buffer" "0 \<le> chain_delay tail_buffer"
    "\<forall>x \<in> set [(test_events ! 0, 1::time), (test_events ! 1, 1)]. 0 \<le> snd x"
    by (simp_all add: tail_buffer_fields)
  have "\<exists>env'. run (start (launcher [(test_events ! 0, 1), (test_events ! 1, 1)])
                   (new_environment tail_buffer)) = Some (Inr env') \<and>
      queue env' = [] \<and>
      mset (requests env') = {#(5, 3, test_events ! 0), (6, 3, test_events ! 1)#} \<and>
      mset (filter is_caught (printed env')) = {#Caught_failed 6 (Failure ''full'')#}"
    using failure_isolation[OF h]
    by (simp add: tail_buffer_fields test_events_nth picky_mux_def rejection_def
          traversal_time_def)
  then show ?thesis using h by blast
qed

text \<open>
  C4: the request. On a stage with a downstream routing stage, \<open>buffer_in\<close> makes exactly
  one request, at the end of the traversal, with the index of the stage and the event
  it was given, also when the entry point fails. It waits for the entry point: the
  run ends when the entry point ends, and the failure of the entry point is caught at
  that time.
\<close>

theorem single_request:
  assumes "0 \<le> sample_length b" and "0 \<le> chain_delay b" and "0 \<le> buffer_length b"
    and "amux b = Some m"
  shows "\<exists>env'. run (start (buffer_in e) (new_environment b)) = Some (Inr env') \<and>
     requests env' =
       [(of_int (buffer_length b) * (sample_length b + chain_delay b), buffer_index b, e)] \<and>
     now env' =
       mx_fin (of_int (buffer_length b) * (sample_length b + chain_delay b))
         (fst (plan m (buffer_index b) e
                 (of_int (buffer_length b) * (sample_length b + chain_delay b)))) \<and>
     filter is_caught (printed env') =
       rejection (Some m) (buffer_index b) e
         (of_int (buffer_length b) * (sample_length b + chain_delay b))"
proof -
  have v: "valid b" using assms by (simp add: valid_def)
  from run_buffer_in[OF v, of e] obtain env' where
    e: "run (start (buffer_in e) (new_environment b)) = Some (Inr env')"
      "now env' = cells_fin b 0 e (py_range (buffer_length b))"
      "printed env' = flines b 0 (Start_BI e)"
      "requests env' = cells_reqs b 0 e (py_range (buffer_length b))"
    by blast
  have T: "traversal_time b = of_int (buffer_length b) * (sample_length b + chain_delay b)"
    using assms(3) by (simp add: traversal_time_def)
  have "requests env' = [(traversal_time b, buffer_index b, e)]"
    using e(4) assms(4) by (simp add: cells_reqs_closed traversal_time_def)
  moreover have "now env' = mx_fin (traversal_time b)
      (fst (plan m (buffer_index b) e (traversal_time b)))"
    using e(2) assms(4) by (simp add: cells_fin_closed traversal_time_def)
  moreover have "filter is_caught (printed env') =
      rejection (Some m) (buffer_index b) e (traversal_time b)"
    using e(3) assms(4) by (simp only: caught_flines_BI)
  ultimately show ?thesis using e(1) unfolding T by blast
qed

text \<open>The example stage rejects the sample with index 0 one unit after the request.\<close>

theorem single_request_witness:
  "0 \<le> sample_length tail_buffer \<and> 0 \<le> chain_delay tail_buffer \<and>
   0 \<le> buffer_length tail_buffer \<and> amux tail_buffer = Some picky_mux \<and>
   (\<exists>env'. run (start (buffer_in (test_events ! 0)) (new_environment tail_buffer)) =
              Some (Inr env') \<and>
      requests env' = [(5, 3, test_events ! 0)] \<and> now env' = 6 \<and>
      filter is_caught (printed env') = [Caught_failed 6 (Failure ''full'')])"
proof -
  have h: "0 \<le> sample_length tail_buffer" "0 \<le> chain_delay tail_buffer"
    "0 \<le> buffer_length tail_buffer" "amux tail_buffer = Some picky_mux"
    by (simp_all add: tail_buffer_fields)
  have "\<exists>env'. run (start (buffer_in (test_events ! 0)) (new_environment tail_buffer)) =
              Some (Inr env') \<and>
      requests env' = [(5, 3, test_events ! 0)] \<and> now env' = 6 \<and>
      filter is_caught (printed env') = [Caught_failed 6 (Failure ''full'')]"
    using single_request[OF h, of "test_events ! 0"]
    by (simp add: tail_buffer_fields test_events_nth picky_mux_def rejection_def)
  then show ?thesis using h by blast
qed

text \<open>
  C5: the counter of dropped events. A new stage has the counter at zero; setting the
  downstream reference leaves it as it is; no step of the engine, in a run of any
  number of events started with any pauses, lowers it; and on a stage without a
  downstream routing stage the run of \<open>K\<close> events ends with the counter \<open>K\<close> higher,
  whatever the pauses, hence however the traversals interleave.
\<close>

theorem drop_counting:
  assumes "0 \<le> sample_length b" and "0 \<le> chain_delay b" and "\<forall>x \<in> set xs. 0 \<le> snd x"
  shows "downstream_events_processed (AnalogBuffer_init i l p c d g) = 0 \<and>
     downstream_events_processed (set_amux m b) = downstream_events_processed b \<and>
     (\<forall>k. \<exists>env1 env2.
        run_steps k (start (launcher xs) (new_environment b)) = Inr env1 \<and>
        run_steps (Suc k) (start (launcher xs) (new_environment b)) = Inr env2 \<and>
        downstream_events_processed (stage env1) \<le> downstream_events_processed (stage env2)) \<and>
     (\<exists>env'. run (start (launcher xs) (new_environment b)) = Some (Inr env') \<and>
        downstream_events_processed b \<le> downstream_events_processed (stage env') \<and>
        (amux b = None \<longrightarrow>
           downstream_events_processed (stage env') =
             downstream_events_processed b + int (length xs)))"
proof -
  have v: "valid b" using assms by (simp add: valid_def)
  from run_launcher[OF v assms(3)] obtain env' where
    e: "run (start (launcher xs) (new_environment b)) = Some (Inr env')"
      "stage env' = b\<lparr>downstream_events_processed :=
         downstream_events_processed b + int (length xs) * rb_drops (amux b)\<rparr>"
    by blast
  have "0 \<le> rb_drops (amux b)" by (cases "amux b") simp_all
  then have "0 \<le> int (length xs) * rb_drops (amux b)" by simp
  then have m: "downstream_events_processed b \<le> downstream_events_processed (stage env')"
    using e(2) by simp
  have k: "amux b = None \<longrightarrow>
           downstream_events_processed (stage env') =
             downstream_events_processed b + int (length xs)"
    using e(2) by simp
  have r: "\<exists>env'. run (start (launcher xs) (new_environment b)) = Some (Inr env') \<and>
        downstream_events_processed b \<le> downstream_events_processed (stage env') \<and>
        (amux b = None \<longrightarrow>
           downstream_events_processed (stage env') =
             downstream_events_processed b + int (length xs))"
    by (rule exI[of _ env']) (intro conjI e(1) m k)
  have s: "\<forall>k. \<exists>env1 env2.
        run_steps k (start (launcher xs) (new_environment b)) = Inr env1 \<and>
        run_steps (Suc k) (start (launcher xs) (new_environment b)) = Inr env2 \<and>
        downstream_events_processed (stage env1) \<le> downstream_events_processed (stage env2)"
  proof
    fix k
    from launcher_every_step[OF assms, of k] obtain env1 env2 n where
      "run_steps k (start (launcher xs) (new_environment b)) = Inr env1"
      "run_steps (Suc k) (start (launcher xs) (new_environment b)) = Inr env2"
      "n = 0 \<or> n = 1"
      "stage env2 = (stage env1)\<lparr>downstream_events_processed :=
                           downstream_events_processed (stage env1) + n\<rparr>"
      by blast
    then show "\<exists>env1 env2.
        run_steps k (start (launcher xs) (new_environment b)) = Inr env1 \<and>
        run_steps (Suc k) (start (launcher xs) (new_environment b)) = Inr env2 \<and>
        downstream_events_processed (stage env1) \<le> downstream_events_processed (stage env2)"
      by auto
  qed
  show ?thesis using r s by (simp add: AnalogBuffer_init_def set_amux_def)
qed

text \<open>Three events, the second started together with the third half a unit after the first.\<close>

theorem drop_counting_witness:
  "0 \<le> sample_length test_buffer \<and> 0 \<le> chain_delay test_buffer \<and>
   (\<exists>env'. run (start (launcher [(test_events ! 0, 1/2), (test_events ! 1, 0),
                                   (test_events ! 2, 3)])
                   (new_environment test_buffer)) = Some (Inr env') \<and>
      downstream_events_processed (stage env') = 3)"
proof -
  have h: "0 \<le> sample_length test_buffer" "0 \<le> chain_delay test_buffer"
    "\<forall>x \<in> set [(test_events ! 0, 1/2::time), (test_events ! 1, 0), (test_events ! 2, 3)].
       0 \<le> snd x"
    by (simp_all add: test_buffer_fields)
  have "\<exists>env'. run (start (launcher [(test_events ! 0, 1/2), (test_events ! 1, 0),
                                   (test_events ! 2, 3)])
                   (new_environment test_buffer)) = Some (Inr env') \<and>
      downstream_events_processed (stage env') = 3"
    using drop_counting[OF h, of 0 "''ring''" 1 5 0 True picky_mux]
    by (auto simp add: test_buffer_fields)
  then show ?thesis using h by blast
qed

text \<open>
  C6: events one unit apart. On a stage with \<open>C = 5\<close>, \<open>P = 1\<close>, \<open>D = 0\<close> and no downstream
  routing stage, the helper of the test suite, starting \<open>N \<ge> 1\<close> of its events at the
  times \<open>0, 1, \<dots>, N - 1\<close>, brings the environment to rest at time \<open>C + (N - 1)\<close>.
\<close>

theorem staggered_events:
  assumes "1 \<le> N" and "N \<le> length evs"
    and "sample_length b = 1" and "chain_delay b = 0" and "buffer_length b = 5"
    and "amux b = None"
  shows "\<exists>env'. run (start (multiple_event_helper evs N) (new_environment b)) = Some (Inr env') \<and>
     queue env' = [] \<and> now env' = 5 + (real N - 1)"
proof -
  let ?xs = "map (\<lambda>i. (evs ! i, 1::time)) [0..<N]"
  have v: "valid b" using assms by (simp add: valid_def)
  have g: "\<forall>x \<in> set ?xs. 0 \<le> snd x" by simp
  have h: "multiple_event_helper evs N = launcher ?xs"
    unfolding multiple_event_helper_def using assms(2) by (intro helper_launcher) simp
  from run_launcher[OF v g] obtain env' where
    e: "run (start (launcher ?xs) (new_environment b)) = Some (Inr env')" "queue env' = []"
      "now env' = dr_fin b 0 ?xs"
    by blast
  have "dr_fin b 0 ?xs = 0 + real (length ?xs) + 4"
    using assms(1) by (intro dr_fin_unit_gaps assms(3-6)) simp_all
  then have "now env' = 5 + (real N - 1)" using e(3) by simp
  then show ?thesis using e(1,2) h by simp
qed

text \<open>The test of the test suite: five events, the run ends at time 9.\<close>

theorem staggered_events_witness:
  "(1::nat) \<le> 5 \<and> 5 \<le> length test_events \<and> sample_length test_buffer = 1 \<and>
   chain_delay test_buffer = 0 \<and> buffer_length test_buffer = 5 \<and> amux test_buffer = None \<and>
   (\<exists>env'. test_multiple_events = Some (Inr env') \<and> now env' = 9)"
proof -
  have h: "(1::nat) \<le> 5" "5 \<le> length test_events" "sample_length test_buffer = 1"
    "chain_delay test_buffer = 0" "buffer_length test_buffer = 5" "amux test_buffer = None"
    by (simp_all add: test_buffer_fields test_events_def)
  have "\<exists>env'. test_multiple_events = Some (Inr env') \<and> now env' = 9"
    using staggered_events[OF h] by (auto simp add: test_multiple_events_def)
  then show ?thesis using h by blast
qed



text \<open>
  C8: the traversal has no failure of its own. With \<open>P \<ge> 0\<close> and \<open>D \<ge> 0\<close>, a cell run
  as a process of its own ends without an exception after \<open>P\<close>; and \<open>buffer_in\<close> always
  reaches the handoff (the counter goes up by one without a routing stage, the request
  is made with one) and ends without an exception, the only failure caught being
  that of the entry point of the routing stage.
\<close>

theorem traversal_never_fails:
  assumes "0 \<le> sample_length b" and "0 \<le> chain_delay b"
  shows "(\<exists>env'. run (start (sample_and_hold_unit e i) (new_environment b)) = Some (Inr env') \<and>
            now env' = sample_length b) \<and>
     (\<exists>env'. run (start (buffer_in e) (new_environment b)) = Some (Inr env') \<and>
        downstream_events_processed (stage env') =
          downstream_events_processed b + (if amux b = None then 1 else 0) \<and>
        map (\<lambda>r. snd r) (requests env') =
          (if amux b = None then [] else [(buffer_index b, e)]) \<and>
        filter is_caught (printed env') =
          rejection (amux b) (buffer_index b) e (traversal_time b))"
proof
  show "\<exists>env'. run (start (sample_and_hold_unit e i) (new_environment b)) = Some (Inr env') \<and>
            now env' = sample_length b"
    using run_sample_and_hold_unit[OF assms(1), of e i] by simp
next
  have v: "valid b" using assms by (simp add: valid_def)
  from run_buffer_in[OF v, of e] obtain env' where
    e: "run (start (buffer_in e) (new_environment b)) = Some (Inr env')"
      "stage env' = b\<lparr>downstream_events_processed :=
                            downstream_events_processed b + rb_drops (amux b)\<rparr>"
      "printed env' = flines b 0 (Start_BI e)"
      "requests env' = cells_reqs b 0 e (py_range (buffer_length b))"
    by blast
  have c: "downstream_events_processed (stage env') =
          downstream_events_processed b + (if amux b = None then 1 else 0)"
    using e(2) by (cases "amux b") simp_all
  have r: "map (\<lambda>r. snd r) (requests env') =
          (if amux b = None then [] else [(buffer_index b, e)])"
    using e(4) by (cases "amux b") (simp_all add: cells_reqs_closed)
  have p: "filter is_caught (printed env') =
          rejection (amux b) (buffer_index b) e (traversal_time b)"
    using e(3) by (simp only: caught_flines_BI)
  show "\<exists>env'. run (start (buffer_in e) (new_environment b)) = Some (Inr env') \<and>
        downstream_events_processed (stage env') =
          downstream_events_processed b + (if amux b = None then 1 else 0) \<and>
        map (\<lambda>r. snd r) (requests env') =
          (if amux b = None then [] else [(buffer_index b, e)]) \<and>
        filter is_caught (printed env') =
          rejection (amux b) (buffer_index b) e (traversal_time b)"
    by (rule exI[of _ env']) (intro conjI e(1) c r p)
qed

text \<open>A cell and an accepted event on the example stage.\<close>

theorem traversal_never_fails_witness:
  "0 \<le> sample_length tail_buffer \<and> 0 \<le> chain_delay tail_buffer \<and>
   (\<exists>env'. run (start (sample_and_hold_unit (test_events ! 1) 4) (new_environment tail_buffer)) =
              Some (Inr env') \<and> now env' = 1) \<and>
   (\<exists>env'. run (start (buffer_in (test_events ! 1)) (new_environment tail_buffer)) =
              Some (Inr env') \<and>
      downstream_events_processed (stage env') = 0 \<and>
      map (\<lambda>r. snd r) (requests env') = [(3, test_events ! 1)] \<and>
      filter is_caught (printed env') = [])"
proof -
  have h: "0 \<le> sample_length tail_buffer" "0 \<le> chain_delay tail_buffer"
    by (simp_all add: tail_buffer_fields)
  have "(\<exists>env'. run (start (sample_and_hold_unit (test_events ! 1) 4) (new_environment tail_buffer)) =
              Some (Inr env') \<and> now env' = 1) \<and>
   (\<exists>env'. run (start (buffer_in (test_events ! 1)) (new_environment tail_buffer)) =
              Some (Inr env') \<and>
      downstream_events_processed (stage env') = 0 \<and>
      map (\<lambda>r. snd r) (requests env') = [(3, test_events ! 1)] \<and>
      filter is_caught (printed env') = [])"
    using traversal_never_fails[OF h, of "test_events ! 1" 4]
    by (simp add: tail_buffer_fields test_events_nth picky_mux_def rejection_def)
  then show ?thesis using h by blast
qed

text \<open>
  C9: the frame. After any number of steps of the engine in a run of any number of
  events, and when the run has come to rest, the stage object differs from the stage
  the run was started on in \<open>downstream_events_processed\<close> at most; and every request
  carries the index of the stage and one of the events the run was given, as given.
\<close>

theorem frame_condition:
  assumes "0 \<le> sample_length b" and "0 \<le> chain_delay b" and "\<forall>x \<in> set xs. 0 \<le> snd x"
  shows "(\<forall>k. \<exists>env1.
        run_steps k (start (launcher xs) (new_environment b)) = Inr env1 \<and>
        stage env1 = b\<lparr>downstream_events_processed := downstream_events_processed (stage env1)\<rparr>) \<and>
     (\<exists>env'. run (start (launcher xs) (new_environment b)) = Some (Inr env') \<and>
        stage env' = b\<lparr>downstream_events_processed := downstream_events_processed (stage env')\<rparr> \<and>
        (\<forall>r \<in> set (requests env').
           fst (snd r) = buffer_index b \<and> snd (snd r) \<in> fst ` set xs))"
proof
  show "\<forall>k. \<exists>env1.
        run_steps k (start (launcher xs) (new_environment b)) = Inr env1 \<and>
        stage env1 = b\<lparr>downstream_events_processed := downstream_events_processed (stage env1)\<rparr>"
  proof
    fix k
    from launcher_every_step[OF assms, of k] show "\<exists>env1.
        run_steps k (start (launcher xs) (new_environment b)) = Inr env1 \<and>
        stage env1 = b\<lparr>downstream_events_processed := downstream_events_processed (stage env1)\<rparr>"
      by blast
  qed
next
  show "\<exists>env'. run (start (launcher xs) (new_environment b)) = Some (Inr env') \<and>
        stage env' = b\<lparr>downstream_events_processed := downstream_events_processed (stage env')\<rparr> \<and>
        (\<forall>r \<in> set (requests env').
           fst (snd r) = buffer_index b \<and> snd (snd r) \<in> fst ` set xs)"
    by (rule launcher_frame[OF assms])
qed

text \<open>Two events on the example stage, after seven steps and at rest.\<close>

theorem frame_condition_witness:
  "0 \<le> sample_length tail_buffer \<and> 0 \<le> chain_delay tail_buffer \<and>
   (\<exists>env1. run_steps 7 (start (launcher [(test_events ! 0, 1), (test_events ! 1, 1)])
                           (new_environment tail_buffer)) = Inr env1 \<and>
      stage env1 = tail_buffer\<lparr>downstream_events_processed :=
                                 downstream_events_processed (stage env1)\<rparr>) \<and>
   (\<exists>env'. run (start (launcher [(test_events ! 0, 1), (test_events ! 1, 1)])
                   (new_environment tail_buffer)) = Some (Inr env') \<and>
      stage env' = tail_buffer\<lparr>downstream_events_processed :=
                                 downstream_events_processed (stage env')\<rparr>)"
proof -
  have h: "0 \<le> sample_length tail_buffer" "0 \<le> chain_delay tail_buffer"
    "\<forall>x \<in> set [(test_events ! 0, 1::time), (test_events ! 1, 1)]. 0 \<le> snd x"
    by (simp_all add: tail_buffer_fields)
  from frame_condition[OF h] have
    a: "\<forall>k. \<exists>env1.
        run_steps k (start (launcher [(test_events ! 0, 1), (test_events ! 1, 1)])
                       (new_environment tail_buffer)) = Inr env1 \<and>
        stage env1 = tail_buffer\<lparr>downstream_events_processed :=
                                   downstream_events_processed (stage env1)\<rparr>"
    and b: "\<exists>env'. run (start (launcher [(test_events ! 0, 1), (test_events ! 1, 1)])
                   (new_environment tail_buffer)) = Some (Inr env') \<and>
        stage env' = tail_buffer\<lparr>downstream_events_processed :=
                                   downstream_events_processed (stage env')\<rparr> \<and>
        (\<forall>r \<in> set (requests env').
           fst (snd r) = buffer_index tail_buffer \<and>
           snd (snd r) \<in> fst ` set [(test_events ! 0, 1::time), (test_events ! 1, 1)])"
    by blast+
  from a have a7: "\<exists>env1. run_steps 7 (start (launcher [(test_events ! 0, 1), (test_events ! 1, 1)])
                           (new_environment tail_buffer)) = Inr env1 \<and>
      stage env1 = tail_buffer\<lparr>downstream_events_processed :=
                                 downstream_events_processed (stage env1)\<rparr>"
    by (rule spec)
  from b have b': "\<exists>env'. run (start (launcher [(test_events ! 0, 1), (test_events ! 1, 1)])
                   (new_environment tail_buffer)) = Some (Inr env') \<and>
      stage env' = tail_buffer\<lparr>downstream_events_processed :=
                                 downstream_events_processed (stage env')\<rparr>"
    by blast
  show ?thesis using h(1,2) a7 b' by blast
qed

text \<open>
  C10: a rejection is not counted. On a stage with a downstream routing stage the run of
  any number of events leaves the stage object as it was, counter included, also
  when the routing stage rejects events; the rejections show in the lines
  \<open>Caught_failed\<close> only.
\<close>

theorem rejection_not_counted:
  assumes "0 \<le> sample_length b" and "0 \<le> chain_delay b" and "\<forall>x \<in> set xs. 0 \<le> snd x"
    and "amux b = Some m"
  shows "\<exists>env'. run (start (launcher xs) (new_environment b)) = Some (Inr env') \<and>
     stage env' = b \<and>
     mset (filter is_caught (printed env')) =
       mset (concat (map (\<lambda>x. rejection (Some m) (buffer_index b) (snd x)
                                  (fst x + traversal_time b)) (starts 0 xs)))"
proof -
  have v: "valid b" using assms by (simp add: valid_def)
  from run_launcher[OF v assms(3)] obtain env' where
    e: "run (start (launcher xs) (new_environment b)) = Some (Inr env')"
      "stage env' = b\<lparr>downstream_events_processed :=
         downstream_events_processed b + int (length xs) * rb_drops (amux b)\<rparr>"
      "mset (printed env') = mset (dr_lines b 0 xs)"
    by blast
  have s: "stage env' = b" using e(2) assms(4) by simp
  have "mset (filter is_caught (printed env')) = mset (filter is_caught (dr_lines b 0 xs))"
    using e(3) by (simp only: mset_filter)
  then have c: "mset (filter is_caught (printed env')) =
       mset (concat (map (\<lambda>x. rejection (Some m) (buffer_index b) (snd x)
                                  (fst x + traversal_time b)) (starts 0 xs)))"
    by (simp only: caught_dr_lines assms(4))
  show ?thesis by (rule exI[of _ env']) (intro conjI e(1) s c)
qed

text \<open>Two events on the example stage, one rejected: the counter stays at zero.\<close>

theorem rejection_not_counted_witness:
  "0 \<le> sample_length tail_buffer \<and> 0 \<le> chain_delay tail_buffer \<and>
   amux tail_buffer = Some picky_mux \<and>
   (\<exists>env'. run (start (launcher [(test_events ! 0, 1), (test_events ! 1, 1)])
                   (new_environment tail_buffer)) = Some (Inr env') \<and>
      stage env' = tail_buffer \<and> downstream_events_processed (stage env') = 0 \<and>
      mset (filter is_caught (printed env')) = {#Caught_failed 6 (Failure ''full'')#})"
proof -
  have h: "0 \<le> sample_length tail_buffer" "0 \<le> chain_delay tail_buffer"
    "\<forall>x \<in> set [(test_events ! 0, 1::time), (test_events ! 1, 1)]. 0 \<le> snd x"
    "amux tail_buffer = Some picky_mux"
    by (simp_all add: tail_buffer_fields)
  have "\<exists>env'. run (start (launcher [(test_events ! 0, 1), (test_events ! 1, 1)])
                   (new_environment tail_buffer)) = Some (Inr env') \<and>
      stage env' = tail_buffer \<and> downstream_events_processed (stage env') = 0 \<and>
      mset (filter is_caught (printed env')) = {#Caught_failed 6 (Failure ''full'')#}"
    using rejection_not_counted[OF h]
    by (auto simp add: tail_buffer_fields test_events_nth picky_mux_def rejection_def
          traversal_time_def)
  then show ?thesis using h(1,2,4) by blast
qed

end
